theory Spec2Isabelle
  imports Complex_Main
begin

section \<open>Table cells\<close>

text \<open>
  A numeric cell of a pandas column is a float64.  The special values are kept apart from
  the finite ones; finite values are real numbers, so rounding and overflow of finite
  arithmetic are not represented.
\<close>

datatype fval = Fin real | PInf | NInf | NaN

text \<open>
  Element-wise \<^verbatim>\<open>/\<close> of two float columns.  pandas never raises on a zero
  divisor: a non-zero value divided by zero is an infinity, zero divided by zero and
  anything involving a missing value is missing.  Zero is the positive zero (areas and
  counts are never negative zeros).
\<close>

fun fdiv :: "fval \<Rightarrow> fval \<Rightarrow> fval" where
  "fdiv NaN y = NaN"
| "fdiv x NaN = NaN"
| "fdiv (Fin a) (Fin b) =
     (if b \<noteq> 0 then Fin (a / b)
      else if 0 < a then PInf else if a < 0 then NInf else NaN)"
| "fdiv (Fin a) PInf = Fin 0"
| "fdiv (Fin a) NInf = Fin 0"
| "fdiv PInf (Fin b) = (if b < 0 then NInf else PInf)"
| "fdiv NInf (Fin b) = (if b < 0 then PInf else NInf)"
| "fdiv PInf PInf = NaN"
| "fdiv PInf NInf = NaN"
| "fdiv NInf PInf = NaN"
| "fdiv NInf NInf = NaN"

definition cell :: "real option \<Rightarrow> fval" where
  "cell v = (case v of None \<Rightarrow> NaN | Some x \<Rightarrow> Fin x)"

section \<open>Block-group keys\<close>

text \<open>
  \<^verbatim>\<open>col.astype(str).str[-12:].str.zfill(12)\<close>, on the string form of one cell.
  A slice \<^verbatim>\<open>[-12:]\<close> of a shorter string is the whole string; \<^verbatim>\<open>zfill\<close> pads
  on the left with zeros, after a leading sign if there is one, and leaves a string
  alone that is already wide enough.
\<close>

definition last12 :: "string \<Rightarrow> string" where
  "last12 s = drop (length s - 12) s"

definition zfill :: "nat \<Rightarrow> string \<Rightarrow> string" where
  "zfill w s =
     (if w \<le> length s then s
      else case s of
             [] \<Rightarrow> replicate w (CHR ''0'')
           | c # r \<Rightarrow>
               if c = CHR ''+'' \<or> c = CHR ''-''
               then c # replicate (w - length s) (CHR ''0'') @ r
               else replicate (w - length s) (CHR ''0'') @ s)"

definition normalize_geoid :: "string \<Rightarrow> string" where
  "normalize_geoid s = zfill 12 (last12 s)"

datatype failure =
    DuplicateKeys nat
  | KeyLength
  | LacksKey
  | GeometryLacksKey
  | NoGeometries
  | OverlayError
  | PointlessConcept
  | EmptySequence

text \<open>
  A key column as pandas holds it after reading a file.  A column read with
  \<^verbatim>\<open>dtype=str\<close> is text; a column read without it is text only when some cell is not a
  number, a column of integers when every cell is a whole number, and a column of floats
  when whole numbers stand beside missing cells.  \<open>None\<close> is a missing cell.  A float
  cell holds a whole number of less than 16 digits here, which Python prints in full with a
  trailing \<^verbatim>\<open>.0\<close>.
\<close>

datatype key_column =
    TextCol "string option list"
  | IntCol "nat list"
  | FloatCol "nat option list"

fun digits :: "nat \<Rightarrow> string" where
  "digits n =
     (if n < 10 then [''0123456789'' ! n]
      else digits (n div 10) @ [''0123456789'' ! (n mod 10)])"

text \<open>
  \<^verbatim>\<open>col.astype(str)\<close>: the string form of every cell; a missing cell stays missing, also
  through the \<^verbatim>\<open>.str\<close> methods that follow.
\<close>

fun astype_str :: "key_column \<Rightarrow> string option list" where
  "astype_str (TextCol cells) = cells"
| "astype_str (IntCol cells) = map (\<lambda>n. Some (digits n)) cells"
| "astype_str (FloatCol cells) = map (map_option (\<lambda>n. digits n @ ''.0'')) cells"

definition normalize_column :: "key_column \<Rightarrow> string option list" where
  "normalize_column col = map (map_option normalize_geoid) (astype_str col)"

text \<open>
  \<^verbatim>\<open>(col.str.len() != 12)\<close>: true of a key that is not 12 characters long, and of a
  missing key, whose length is not-a-number.
\<close>

definition not_12_chars :: "string option \<Rightarrow> bool" where
  "not_12_chars k = (case k of None \<Rightarrow> True | Some s \<Rightarrow> length s \<noteq> 12)"

text \<open>
  \<^verbatim>\<open>Series.duplicated()\<close>: a row is flagged when its value occurred in an earlier row;
  missing values count as equal.
\<close>

fun duplicated :: "'a list \<Rightarrow> 'a list \<Rightarrow> bool list" where
  "duplicated seen [] = []"
| "duplicated seen (x # xs) = (x \<in> set seen) # duplicated (x # seen) xs"

text \<open>
  checkinputs.py, step 3: the key column of the ACS table, read as text, is normalised,
  then the run fails on duplicates, then on a key that is not 12 characters long.
\<close>

definition checkinputs_keys :: "string option list \<Rightarrow> failure + string option list" where
  "checkinputs_keys col =
     (let ks = normalize_column (TextCol col);
          dups = length (filter id (duplicated [] ks))
      in if 0 < dups then Inl (DuplicateKeys dups)
         else if list_ex not_12_chars ks then Inl KeyLength
         else Inr ks)"

text \<open>
  checkinputs.py, step 5: the geometry layer's own \<^verbatim>\<open>GEOID_BG\<close> column is taken as it
  is; only a layer without it gets the column derived from \<^verbatim>\<open>GEOID\<close>.  The two
  arguments are the columns of the layer, \<open>None\<close> for an absent column.
\<close>

definition checkinputs_geometry_key :: "key_column option \<Rightarrow> key_column option \<Rightarrow> failure + key_column" where
  "checkinputs_geometry_key geoid_bg geoid =
     (case geoid_bg of
        Some ks \<Rightarrow> Inr ks
      | None \<Rightarrow> (case geoid of
                   Some gs \<Rightarrow> Inr (TextCol (normalize_column gs))
                 | None \<Rightarrow> Inl GeometryLacksKey))"

text \<open>
  computemetrics.py, "Ensure key": the same treatment of the polygon layer, whose key
  column goes into the merges and into the output table.
\<close>

definition ensure_key :: "key_column option \<Rightarrow> key_column option \<Rightarrow> failure + key_column" where
  "ensure_key geoid_bg geoid =
     (case geoid_bg of
        Some ks \<Rightarrow> Inr ks
      | None \<Rightarrow> (case geoid of
                   Some gs \<Rightarrow> Inr (TextCol (normalize_column gs))
                 | None \<Rightarrow> Inl LacksKey))"

section \<open>Joins and group-wise aggregation\<close>

text \<open>
  \<^verbatim>\<open>left.merge(right, on=key, how="left")\<close>: the rows of the left table in their order,
  each once per matching row of the right table, or once with missing right columns
  when nothing matches.
\<close>

definition merge_left :: "('k \<times> 'a) list \<Rightarrow> ('k \<times> 'b) list \<Rightarrow> ('k \<times> 'a \<times> 'b option) list" where
  "merge_left L R =
     concat (map (\<lambda>(k, a).
       case map snd (filter (\<lambda>r. fst r = k) R) of
         [] \<Rightarrow> [(k, a, None)]
       | bs \<Rightarrow> map (\<lambda>b. (k, a, Some b)) bs) L)"

text \<open>
  aggregatetobg.py: the ACS table is read as text and the metrics table without
  \<^verbatim>\<open>dtype=str\<close>, so that its key column arrives as pandas typed it; both key columns
  are normalised, then the ACS table is left-joined with the metrics table.  The merge
  pairs a missing key with a missing key.
\<close>

definition aggregatetobg_join ::
  "(string option \<times> 'a) list \<Rightarrow> key_column \<Rightarrow> 'b list \<Rightarrow> (string option \<times> 'a \<times> 'b option) list" where
  "aggregatetobg_join acs metrics_keys metrics_rows =
     merge_left (zip (normalize_column (TextCol (map fst acs))) (map snd acs))
                (zip (normalize_column metrics_keys) metrics_rows)"

text \<open>
  A row of \<^verbatim>\<open>nodes_in_bg\<close>, the left spatial join of the nodes with the polygons: the
  node's betweenness (a number for every node), its mean shortest-path length
  (\<open>None\<close> for \<^verbatim>\<open>math.nan\<close>) and the key of a polygon that contains it (\<open>None\<close> when
  no polygon does).  A node geometry is never null, so \<^verbatim>\<open>("geometry","count")\<close> counts
  the rows of a group.
\<close>

record node_row =
  nr_betweenness :: real
  nr_aspl :: "real option"
  nr_key :: "string option"

record node_agg =
  na_count :: nat
  na_betweenness_mean :: fval
  na_betweenness_p90 :: fval
  na_aspl_mean :: fval

text \<open>\<^verbatim>\<open>mean\<close> skips missing values; the mean of no value is missing.\<close>

definition nanmean :: "real option list \<Rightarrow> fval" where
  "nanmean xs =
     (let vs = List.map_filter id xs
      in if vs = [] then NaN else Fin (sum_list vs / real (length vs)))"

text \<open>\<^verbatim>\<open>Series.quantile(q)\<close> with linear interpolation between the two closest ranks.\<close>

definition quantile :: "real \<Rightarrow> real list \<Rightarrow> fval" where
  "quantile q xs =
     (if xs = [] then NaN
      else let s = sort xs;
               h = q * real (length xs - 1);
               lo = nat \<lfloor>h\<rfloor>;
               hi = nat \<lceil>h\<rceil>
           in Fin (s ! lo + (s ! hi - s ! lo) * (h - real lo)))"

definition agg_nodes :: "node_row list \<Rightarrow> node_agg" where
  "agg_nodes g =
     \<lparr> na_count = length g,
       na_betweenness_mean = nanmean (map (\<lambda>r. Some (nr_betweenness r)) g),
       na_betweenness_p90 = quantile (9 / 10) (map nr_betweenness g),
       na_aspl_mean = nanmean (map nr_aspl g) \<rparr>"

text \<open>
  \<^verbatim>\<open>groupby("GEOID_BG").agg(...).reset_index()\<close>: one row per key that occurs, rows
  with a missing key dropped.  pandas sorts the keys; the left joins below look rows up
  by key, so the order of the groups is not observable and the order of first
  occurrence is used.
\<close>

definition nodes_grp :: "node_row list \<Rightarrow> (string \<times> node_agg) list" where
  "nodes_grp joined =
     map (\<lambda>k. (k, agg_nodes (filter (\<lambda>r. nr_key r = Some k) joined)))
         (remdups (List.map_filter nr_key joined))"

text \<open>
  A row of \<^verbatim>\<open>inter\<close>, the overlay of the edges with the polygons: the polygon's key and
  the length in metres of the clipped geometry.  The overlay keeps line geometries only,
  so a block group that no edge crosses has no row.
\<close>

definition edges_grp :: "(string \<times> real) list \<Rightarrow> (string \<times> real) list" where
  "edges_grp clips =
     map (\<lambda>k. (k, sum_list (map (\<lambda>e. snd e / 1000) (filter (\<lambda>e. fst e = k) clips))))
         (remdups (map fst clips))"

record metrics_row =
  GEOID_BG :: string
  area_km2 :: fval
  nodes_in_bg :: fval
  edges_km :: fval
  node_density :: fval
  edge_km_density :: fval
  betweenness_mean :: fval
  betweenness_p90 :: fval
  aspl_mean :: fval

definition make_row :: "string \<Rightarrow> fval \<Rightarrow> node_agg option \<Rightarrow> real option \<Rightarrow> metrics_row" where
  "make_row k area n e =
     (let cnt = (case n of None \<Rightarrow> NaN | Some a \<Rightarrow> Fin (real (na_count a)));
          km = cell e
      in \<lparr> GEOID_BG = k,
           area_km2 = area,
           nodes_in_bg = cnt,
           edges_km = km,
           node_density = fdiv cnt area,
           edge_km_density = fdiv km area,
           betweenness_mean = (case n of None \<Rightarrow> NaN | Some a \<Rightarrow> na_betweenness_mean a),
           betweenness_p90 = (case n of None \<Rightarrow> NaN | Some a \<Rightarrow> na_betweenness_p90 a),
           aspl_mean = (case n of None \<Rightarrow> NaN | Some a \<Rightarrow> na_aspl_mean a) \<rparr>)"

text \<open>
  computemetrics.py, steps 4 and 5.  A row of \<open>bg\<close> is a feature of the polygon layer:
  its key and the area of its geometry in square metres (\<open>None\<close> for a feature without
  geometry, whose area is missing).
\<close>

definition metrics :: "(string \<times> real option) list \<Rightarrow> node_row list \<Rightarrow> (string \<times> real) list \<Rightarrow> metrics_row list" where
  "metrics bg joined clips =
     map (\<lambda>(k, (area, n), e). make_row k area n e)
       (merge_left
          (merge_left (map (\<lambda>(k, a). (k, fdiv (cell a) (Fin 1000000))) bg) (nodes_grp joined))
          (edges_grp clips))"

text \<open>
  computemetrics.py as a run, from the loaded layer to the written table.  The run stops
  when the layer has no feature.  \<^verbatim>\<open>gpd.overlay\<close> raises when no edge meets any
  polygon: with nothing to clip it cannot merge the \<^verbatim>\<open>(u, v, key)\<close> index that the
  edges carry, and no table is written.
\<close>

definition computemetrics_run ::
  "(string \<times> real option) list \<Rightarrow> node_row list \<Rightarrow> (string \<times> real) list \<Rightarrow> failure + metrics_row list" where
  "computemetrics_run bg joined clips =
     (if bg = [] then Inl NoGeometries
      else if clips = [] then Inl OverlayError
      else Inr (metrics bg joined clips))"

text \<open>
  A small layer used below: two features share a key, the second with an empty polygon;
  a third has neither nodes nor edges; a fourth has no geometry.  One node lies in the
  first polygon, one outside every polygon, and one edge crosses the first polygon.
\<close>

definition example_bg :: "(string \<times> real option) list" where
  "example_bg =
     [(''170317501001'', Some 250000), (''170317501001'', Some 0),
      (''170317501002'', Some 500000), (''170317501003'', None)]"

definition example_joined :: "node_row list" where
  "example_joined =
     [\<lparr>nr_betweenness = 1, nr_aspl = Some 125, nr_key = Some ''170317501001''\<rparr>,
      \<lparr>nr_betweenness = 0, nr_aspl = Some 175, nr_key = None\<rparr>]"

definition example_clips :: "(string \<times> real) list" where
  "example_clips = [(''170317501001'', 120)]"

text \<open>
  The nodes of a graph that lies outside every polygon of the layer: no node is assigned
  to a block group, and no edge meets one.
\<close>

definition outside_joined :: "node_row list" where
  "outside_joined =
     [\<lparr>nr_betweenness = 1, nr_aspl = Some 125, nr_key = None\<rparr>,
      \<lparr>nr_betweenness = 0, nr_aspl = Some 175, nr_key = None\<rparr>]"

section \<open>The street graph\<close>

text \<open>
  \<^verbatim>\<open>ox.load_graphml\<close> returns a directed multigraph: nodes are OSM identifiers, an edge
  has a source, a target and a \<^verbatim>\<open>length\<close> in metres, a two-way street is a pair of
  opposite edges, and parallel edges are allowed.  networkx keeps the nodes without
  repetition and adds the end points of every edge to the nodes; \<open>wf_graph\<close> states
  both.
\<close>

type_synonym node = int

record graph =
  nodes :: "node list"
  edges :: "(node \<times> node \<times> real) list"

definition wf_graph :: "graph \<Rightarrow> bool" where
  "wf_graph G \<longleftrightarrow>
     distinct (nodes G) \<and>
     list_all (\<lambda>e. fst e \<in> set (nodes G) \<and> fst (snd e) \<in> set (nodes G)) (edges G)"

text \<open>The adjacency \<^verbatim>\<open>G[v]\<close>: the nodes that an edge leaving \<open>v\<close> leads to.\<close>

definition succs :: "graph \<Rightarrow> node \<Rightarrow> node list" where
  "succs G v = filter (\<lambda>w. list_ex (\<lambda>e. fst e = v \<and> fst (snd e) = w) (edges G)) (nodes G)"

text \<open>\<^verbatim>\<open>G.to_undirected()\<close>: the same nodes, every edge usable in both directions.\<close>

definition to_undirected :: "graph \<Rightarrow> graph" where
  "to_undirected G =
     \<lparr> nodes = nodes G,
       edges = edges G @ map (\<lambda>e. (fst (snd e), fst e, snd (snd e))) (edges G) \<rparr>"

text \<open>
  \<^verbatim>\<open>G.subgraph(comp).copy()\<close>: the nodes kept and the edges between them.  (networkx
  does not promise the order in which the copy lists its nodes; the order of the graph
  is used.)
\<close>

definition subgraph :: "graph \<Rightarrow> node list \<Rightarrow> graph" where
  "subgraph G keep =
     \<lparr> nodes = filter (\<lambda>v. v \<in> set keep) (nodes G),
       edges = filter (\<lambda>e. fst e \<in> set keep \<and> fst (snd e) \<in> set keep) (edges G) \<rparr>"

subsection \<open>Connected components (networkx)\<close>

text \<open>
  Modelled from the spec: \<^verbatim>\<open>nx.is_connected\<close> and \<^verbatim>\<open>nx.connected_components\<close> are
  networkx code and not in the repository.  The spec has a connected component be a
  maximal set of nodes, treating edges as undirected, within which every node is
  reachable from every other.  networkx collects such a set by a breadth-first search,
  in which a node enters \<open>seen\<close> and the queue when it is first met.
\<close>

function bfs :: "graph \<Rightarrow> node list \<Rightarrow> node list \<Rightarrow> node list" where
  "bfs G seen [] = seen"
| "bfs G seen (v # queue) =
     (let new = filter (\<lambda>w. w \<notin> set seen) (succs G v)
      in bfs G (seen @ new) (queue @ new))"
  by pat_completeness auto
termination
proof (relation "inv_image (less_than <*lex*> less_than)
         (\<lambda>(G :: graph, seen :: node list, queue :: node list).
            (card (set (nodes G) - set seen), length queue))")
  show "wf (inv_image (less_than <*lex*> less_than)
         (\<lambda>(G :: graph, seen :: node list, queue :: node list).
            (card (set (nodes G) - set seen), length queue)))"
    by (intro wf_inv_image wf_lex_prod wf_less_than)
next
  fix G :: graph and seen :: "node list" and v :: node and queue new :: "node list"
  assume new: "new = filter (\<lambda>w. w \<notin> set seen) (succs G v)"
  show "((G, seen @ new, queue @ new), (G, seen, v # queue))
          \<in> inv_image (less_than <*lex*> less_than)
              (\<lambda>(G :: graph, seen :: node list, queue :: node list).
            (card (set (nodes G) - set seen), length queue))"
  proof (cases "new = []")
    case True
    then show ?thesis by simp
  next
    case False
    then obtain w where w: "w \<in> set new" by (cases new) auto
    with new have "w \<in> set (nodes G) - set seen" by (auto simp: succs_def)
    moreover from w have "w \<notin> set (nodes G) - set (seen @ new)" by simp
    ultimately have "set (nodes G) - set (seen @ new) \<subset> set (nodes G) - set seen"
      by auto
    then have "card (set (nodes G) - set (seen @ new)) < card (set (nodes G) - set seen)"
      by (intro psubset_card_mono) auto
    then show ?thesis by simp
  qed
qed

definition plain_bfs :: "graph \<Rightarrow> node \<Rightarrow> node list" where
  "plain_bfs G v = bfs G [v] [v]"

text \<open>
  \<^verbatim>\<open>nx.is_connected\<close> raises on the graph without nodes and otherwise searches from
  the first node.
\<close>

definition is_connected :: "graph \<Rightarrow> failure + bool" where
  "is_connected G =
     (case nodes G of
        [] \<Rightarrow> Inl PointlessConcept
      | v # _ \<Rightarrow> Inr (length (plain_bfs G v) = length (nodes G)))"

text \<open>\<^verbatim>\<open>nx.connected_components\<close>: one search from every node not seen before.\<close>

fun components_from :: "graph \<Rightarrow> node list \<Rightarrow> node list \<Rightarrow> node list list" where
  "components_from G seen [] = []"
| "components_from G seen (v # vs) =
     (if v \<in> set seen then components_from G seen vs
      else let c = plain_bfs G v in c # components_from G (seen @ c) vs)"

definition connected_components :: "graph \<Rightarrow> node list list" where
  "connected_components G = components_from G [] (nodes G)"

text \<open>
  \<^verbatim>\<open>max(..., key=len)\<close>: the first of the longest items; it raises on an empty
  sequence.
\<close>

definition max_by_len :: "'a list list \<Rightarrow> failure + 'a list" where
  "max_by_len cs =
     (case cs of
        [] \<Rightarrow> Inl EmptySequence
      | c # rest \<Rightarrow> Inr (foldl (\<lambda>best x. if length best < length x then x else best) c rest))"

text \<open>The helper \<^verbatim>\<open>largest_component\<close> of computemetrics.py (and of buildnetwork.py).\<close>

definition largest_component :: "graph \<Rightarrow> failure + graph" where
  "largest_component G =
     (let UG = to_undirected G
      in case is_connected UG of
           Inl e \<Rightarrow> Inl e
         | Inr True \<Rightarrow> Inr G
         | Inr False \<Rightarrow>
             (case max_by_len (connected_components UG) of
                Inl e \<Rightarrow> Inl e
              | Inr c \<Rightarrow> Inr (subgraph G c)))"

text \<open>
  Connectivity of the graph treated as undirected: \<open>u\<close> and \<open>v\<close> are linked when a
  walk over edges, taken in either direction, leads from one to the other; the graph is
  connected when all its nodes are linked, and the component of a node holds the nodes
  linked to it.
\<close>

definition arcs :: "graph \<Rightarrow> (node \<times> node) set" where
  "arcs G = {(u, v). v \<in> set (succs G u)}"

definition linked :: "graph \<Rightarrow> (node \<times> node) set" where
  "linked G = (arcs (to_undirected G))\<^sup>*"

definition undirected_connected :: "graph \<Rightarrow> bool" where
  "undirected_connected G \<longleftrightarrow> (\<forall>u \<in> set (nodes G). \<forall>v \<in> set (nodes G). (u, v) \<in> linked G)"

definition component_of :: "graph \<Rightarrow> node \<Rightarrow> node set" where
  "component_of G u = {v. (u, v) \<in> linked G}"

text \<open>
  Two streets that meet at node 2, and a separate street between nodes 4 and 5.
\<close>

definition example_graph :: graph where
  "example_graph =
     \<lparr> nodes = [1, 2, 3, 4, 5],
       edges = [(1, 2, 100), (2, 1, 100), (2, 3, 150), (3, 2, 150), (4, 5, 80)] \<rparr>"

section \<open>Node metrics\<close>

subsection \<open>Shortest paths and betweenness (networkx)\<close>

text \<open>
  networkx is a library that the repository calls and does not contain.  Its two
  functions used for the node metrics are modelled below from what the spec says they
  compute, over the paths of the graph that visit no node twice; these are enough when
  no length is negative.  Between two nodes joined by parallel edges the shortest edge
  counts.
\<close>

definition edge_weight :: "graph \<Rightarrow> node \<Rightarrow> node \<Rightarrow> real" where
  "edge_weight G u v =
     min_list (map (\<lambda>e. snd (snd e)) (filter (\<lambda>e. fst e = u \<and> fst (snd e) = v) (edges G)))"

fun path_length :: "graph \<Rightarrow> node list \<Rightarrow> real" where
  "path_length G (u # v # p) = edge_weight G u v + path_length G (v # p)"
| "path_length G p = 0"

text \<open>
  The paths that start at \<open>v\<close>, avoid the nodes of \<open>visited\<close>, visit no node twice
  and have at most \<open>n\<close> edges.
\<close>

fun extend_path :: "graph \<Rightarrow> nat \<Rightarrow> node list \<Rightarrow> node \<Rightarrow> node list list" where
  "extend_path G 0 visited v = [[v]]"
| "extend_path G (Suc n) visited v =
     [v] # map ((#) v)
             (concat (map (extend_path G n (v # visited))
                          (filter (\<lambda>w. w \<notin> set (v # visited)) (succs G v))))"

definition simple_paths :: "graph \<Rightarrow> node \<Rightarrow> node list list" where
  "simple_paths G s = extend_path G (length (nodes G)) [] s"

definition paths_between :: "graph \<Rightarrow> node \<Rightarrow> node \<Rightarrow> node list list" where
  "paths_between G s t = filter (\<lambda>p. last p = t) (simple_paths G s)"

definition distance :: "graph \<Rightarrow> node \<Rightarrow> node \<Rightarrow> real" where
  "distance G s t = min_list (map (path_length G) (paths_between G s t))"

text \<open>
  Modelled from the spec: \<^verbatim>\<open>nx.single_source_dijkstra_path_length\<close> is networkx code and
  not in the repository.  The spec has it compute the length-weighted shortest-path
  distance from a source to every node reachable from it.  The dictionary has a key for
  every node that can be reached from \<open>s\<close> along the edges, \<open>s\<close> itself included,
  with its distance.  (networkx lists the keys by distance; sums and counts do not
  depend on the order.)
\<close>

definition single_source_dijkstra_path_length :: "graph \<Rightarrow> node \<Rightarrow> (node \<times> real) list" where
  "single_source_dijkstra_path_length G s = map (\<lambda>t. (t, distance G s t)) (plain_bfs G s)"

definition shortest_paths :: "graph \<Rightarrow> node \<Rightarrow> node \<Rightarrow> node list list" where
  "shortest_paths G s t =
     filter (\<lambda>p. path_length G p = distance G s t) (paths_between G s t)"

text \<open>The share of the shortest paths from \<open>s\<close> to \<open>t\<close> that pass through \<open>v\<close>.\<close>

definition pair_dependency :: "graph \<Rightarrow> node \<Rightarrow> node \<Rightarrow> node \<Rightarrow> real" where
  "pair_dependency G s t v =
     (let sp = shortest_paths G s t
      in if sp = [] then 0
         else real (length (filter (\<lambda>p. v \<in> set p) sp)) / real (length sp))"

text \<open>
  Modelled from the spec: \<^verbatim>\<open>nx.betweenness_centrality\<close> is networkx code and not in the
  repository.  The spec has it compute, for every node, the fraction of the shortest
  paths between all pairs of other nodes that pass through the node, weighted by edge
  length and normalised to the unit interval.  For a directed graph the sum over the
  ordered pairs of other nodes is divided by the number \<open>(n - 1) (n - 2)\<close> of such
  pairs when the graph has more than two nodes.
\<close>

definition raw_betweenness :: "graph \<Rightarrow> node \<Rightarrow> real" where
  "raw_betweenness G v =
     sum_list (map (\<lambda>s. sum_list (map (\<lambda>t. pair_dependency G s t v)
                                   (filter (\<lambda>t. t \<noteq> s \<and> t \<noteq> v) (nodes G))))
                   (filter (\<lambda>s. s \<noteq> v) (nodes G)))"

definition betweenness_centrality :: "graph \<Rightarrow> (node \<times> real) list" where
  "betweenness_centrality G =
     (let n = length (nodes G)
      in map (\<lambda>v. (v, if n \<le> 2 then raw_betweenness G v
                      else raw_betweenness G v / real ((n - 1) * (n - 2))))
             (nodes G))"

subsection \<open>Mean shortest-path length\<close>

text \<open>
  \<^verbatim>\<open>all_pairs_mean_shortest_path_length\<close> of computemetrics.py: for every node the
  distances of its dictionary without its own entry, summed and divided by the number of
  entries less one; \<open>None\<close> stands for \<^verbatim>\<open>math.nan\<close>.
\<close>

definition all_pairs_mean_shortest_path_length :: "graph \<Rightarrow> (node \<times> real option) list" where
  "all_pairs_mean_shortest_path_length G =
     map (\<lambda>u.
       let lengths = single_source_dijkstra_path_length G u
       in (u, if 1 < length lengths
              then Some (sum_list (map snd (filter (\<lambda>(v, d). v \<noteq> u) lengths))
                           / real (length lengths - 1))
              else None))
       (nodes G)"

text \<open>
  The scenario of the spec: nodes A, B, C (here 1, 2, 3), a street of 100 m between A
  and B and one of 150 m between B and C, each a pair of opposite edges.
\<close>

definition abc_graph :: graph where
  "abc_graph =
     \<lparr> nodes = [1, 2, 3],
       edges = [(1, 2, 100), (2, 1, 100), (2, 3, 150), (3, 2, 150)] \<rparr>"

definition single_node_graph :: graph where
  "single_node_graph = \<lparr> nodes = [7], edges = [] \<rparr>"

section \<open>Properties of the tables\<close>

lemma filter_key_distinct:
  "distinct (map fst R) \<Longrightarrow>
     map snd (filter (\<lambda>r. fst r = k) R) = (case map_of R k of None \<Rightarrow> [] | Some b \<Rightarrow> [b])"
proof (induction R)
  case Nil
  then show ?case by simp
next
  case (Cons r R)
  obtain k' b where r: "r = (k', b)" by (cases r)
  show ?case
  proof (cases "k' = k")
    case True
    with Cons.prems r have "k \<notin> fst ` set R" by auto
    then have "filter (\<lambda>r. fst r = k) R = []" "map_of R k = None"
      by (auto simp: filter_empty_conv map_of_eq_None_iff)
    with True r show ?thesis by simp
  next
    case False
    with Cons r show ?thesis by simp
  qed
qed

lemma merge_left_distinct:
  "distinct (map fst R) \<Longrightarrow> merge_left L R = map (\<lambda>(k, a). (k, a, map_of R k)) L"
  unfolding merge_left_def
  by (induction L) (auto simp: filter_key_distinct split: option.splits)

lemma in_set_map_filter: "k \<in> set (List.map_filter f xs) \<longleftrightarrow> Some k \<in> f ` set xs"
  by (induction xs) (force simp: map_filter_simps split: option.splits)+

lemma map_of_nodes_grp:
  "map_of (nodes_grp joined) k =
     (if Some k \<in> nr_key ` set joined
      then Some (agg_nodes (filter (\<lambda>r. nr_key r = Some k) joined)) else None)"
  by (auto simp: nodes_grp_def map_of_map_restrict restrict_map_def in_set_map_filter)

lemma map_of_edges_grp:
  "map_of (edges_grp clips) k =
     (if k \<in> fst ` set clips
      then Some (sum_list (map (\<lambda>e. snd e / 1000) (filter (\<lambda>e. fst e = k) clips))) else None)"
  by (auto simp: edges_grp_def map_of_map_restrict restrict_map_def)

lemma distinct_nodes_grp: "distinct (map fst (nodes_grp joined))"
  by (simp add: nodes_grp_def comp_def)

lemma distinct_edges_grp: "distinct (map fst (edges_grp clips))"
  by (simp add: edges_grp_def comp_def)

lemma metrics_rowwise:
  "metrics bg joined clips =
     map (\<lambda>(k, a). make_row k (fdiv (cell a) (Fin 1000000))
                     (map_of (nodes_grp joined) k) (map_of (edges_grp clips) k)) bg"
  by (simp add: metrics_def merge_left_distinct distinct_nodes_grp distinct_edges_grp
        split_def comp_def)


lemma fdiv_NaN_right: "fdiv x NaN = NaN"
  by (cases x) simp_all

lemma metrics_nth:
  assumes "i < length bg" and "bg ! i = (k, a)"
  shows "metrics bg joined clips ! i =
           make_row k (fdiv (cell a) (Fin 1000000))
             (map_of (nodes_grp joined) k) (map_of (edges_grp clips) k)"
  using assms by (simp add: metrics_rowwise)

text \<open>
  Claim C1, as the code has it.  In every row of the output table the node density is the
  node count divided by the area, and the edge density the summed clipped edge length
  divided by the area, whenever the area is positive and the numerator is defined; a
  density is missing whenever its numerator or the area is missing.  A defined node
  count is at least one, so over an area of zero the node density is plus infinity, and
  so is the edge density of a positive edge length; only an edge length of zero over an
  area of zero gives a missing density.  The division is the plain float division,
  which never raises and does not turn a zero divisor into a missing value.
\<close>

theorem density_is_float_quotient:
  assumes "i < length bg" and "r = metrics bg joined clips ! i"
  shows "node_density r = fdiv (nodes_in_bg r) (area_km2 r)
       \<and> edge_km_density r = fdiv (edges_km r) (area_km2 r)
       \<and> (\<forall>c a. nodes_in_bg r = Fin c \<and> area_km2 r = Fin a \<and> 0 < a \<longrightarrow> node_density r = Fin (c / a))
       \<and> (\<forall>e a. edges_km r = Fin e \<and> area_km2 r = Fin a \<and> 0 < a \<longrightarrow> edge_km_density r = Fin (e / a))
       \<and> (nodes_in_bg r = NaN \<or> area_km2 r = NaN \<longrightarrow> node_density r = NaN)
       \<and> (edges_km r = NaN \<or> area_km2 r = NaN \<longrightarrow> edge_km_density r = NaN)
       \<and> (\<forall>c. nodes_in_bg r = Fin c \<and> area_km2 r = Fin 0 \<longrightarrow> 0 < c \<and> node_density r = PInf)
       \<and> (\<forall>e. edges_km r = Fin e \<and> area_km2 r = Fin 0 \<and> 0 < e \<longrightarrow> edge_km_density r = PInf)
       \<and> (edges_km r = Fin 0 \<and> area_km2 r = Fin 0 \<longrightarrow> edge_km_density r = NaN)"
proof -
  obtain k a where ka: "bg ! i = (k, a)" by (cases "bg ! i")
  note r = assms(2)[unfolded metrics_nth[OF assms(1) ka]]
  have dens: "node_density r = fdiv (nodes_in_bg r) (area_km2 r)"
             "edge_km_density r = fdiv (edges_km r) (area_km2 r)"
    by (simp_all add: r make_row_def Let_def)
  have pos: "0 < c" if "nodes_in_bg r = Fin c" for c
  proof -
    from that obtain g where g: "map_of (nodes_grp joined) k = Some g" "c = real (na_count g)"
      by (auto simp: r make_row_def Let_def split: option.splits)
    from g(1) have "g = agg_nodes (filter (\<lambda>r. nr_key r = Some k) joined)"
      and "Some k \<in> nr_key ` set joined"
      by (auto simp: map_of_nodes_grp split: if_splits)
    then have "filter (\<lambda>r. nr_key r = Some k) joined \<noteq> []"
      by (auto simp: filter_empty_conv)
    with \<open>g = _\<close> g(2) show ?thesis by (simp add: agg_nodes_def)
  qed
  have cases: "(\<forall>c a. nodes_in_bg r = Fin c \<and> area_km2 r = Fin a \<and> 0 < a \<longrightarrow> node_density r = Fin (c / a))
       \<and> (\<forall>e a. edges_km r = Fin e \<and> area_km2 r = Fin a \<and> 0 < a \<longrightarrow> edge_km_density r = Fin (e / a))
       \<and> (nodes_in_bg r = NaN \<or> area_km2 r = NaN \<longrightarrow> node_density r = NaN)
       \<and> (edges_km r = NaN \<or> area_km2 r = NaN \<longrightarrow> edge_km_density r = NaN)
       \<and> (\<forall>c. nodes_in_bg r = Fin c \<and> area_km2 r = Fin 0 \<longrightarrow> 0 < c \<and> node_density r = PInf)
       \<and> (\<forall>e. edges_km r = Fin e \<and> area_km2 r = Fin 0 \<and> 0 < e \<longrightarrow> edge_km_density r = PInf)
       \<and> (edges_km r = Fin 0 \<and> area_km2 r = Fin 0 \<longrightarrow> edge_km_density r = NaN)"
    using pos by (auto simp: dens fdiv_NaN_right)
  with dens show ?thesis by (intro conjI) blast+
qed


lemmas example_eval =
  example_bg_def example_joined_def example_clips_def metrics_def merge_left_def
  nodes_grp_def edges_grp_def agg_nodes_def make_row_def map_filter_simps nanmean_def
  quantile_def cell_def Let_def

lemma example_row0:
  "metrics example_bg example_joined example_clips ! 0 =
     \<lparr>GEOID_BG = ''170317501001'', area_km2 = Fin (1/4), nodes_in_bg = Fin 1,
      edges_km = Fin (3/25), node_density = Fin 4, edge_km_density = Fin (12/25),
      betweenness_mean = Fin 1, betweenness_p90 = Fin 1, aspl_mean = Fin 125\<rparr>"
  by (simp add: example_eval)

text \<open>
  The second feature of the example layer has an empty polygon and shares its key with
  the first: its area is zero, its node count and edge length are defined, and both of
  its densities are infinite rather than missing.
\<close>

theorem zero_area_density_counterexample:
  "area_km2 (metrics example_bg example_joined example_clips ! 1) = Fin 0
   \<and> nodes_in_bg (metrics example_bg example_joined example_clips ! 1) = Fin 1
   \<and> node_density (metrics example_bg example_joined example_clips ! 1) = PInf
   \<and> edges_km (metrics example_bg example_joined example_clips ! 1) = Fin (3/25)
   \<and> edge_km_density (metrics example_bg example_joined example_clips ! 1) = PInf"
  by (simp add: example_eval)

theorem density_is_float_quotient_witness:
  "0 < length example_bg
   \<and> nodes_in_bg (metrics example_bg example_joined example_clips ! 0) = Fin 1
   \<and> area_km2 (metrics example_bg example_joined example_clips ! 0) = Fin (1/4)
   \<and> node_density (metrics example_bg example_joined example_clips ! 0) = Fin (1 / (1/4))"
proof -
  have len: "0 < length example_bg" by (simp add: example_bg_def)
  have cells: "nodes_in_bg (metrics example_bg example_joined example_clips ! 0) = Fin 1"
     "area_km2 (metrics example_bg example_joined example_clips ! 0) = Fin (1/4)"
    by (simp_all add: example_row0)
  have pos: "(0::real) < 1/4" by simp
  have "node_density (metrics example_bg example_joined example_clips ! 0) = Fin (1 / (1/4))"
    using density_is_float_quotient [OF len refl, of example_joined example_clips] cells pos
    by blast
  with len cells show ?thesis by blast
qed

lemma sum_list_pos_nonempty:
  "xs \<noteq> [] \<Longrightarrow> (\<And>x. x \<in> set xs \<Longrightarrow> 0 < f x) \<Longrightarrow> 0 < sum_list (map f xs :: real list)"
proof (induction xs)
  case Nil
  then show ?case by simp
next
  case (Cons x xs)
  show ?case
  proof (cases "xs = []")
    case True
    with Cons.prems show ?thesis by simp
  next
    case False
    with Cons have "0 < sum_list (map f xs)" by simp
    moreover from Cons.prems have "0 < f x" by simp
    ultimately show ?thesis by simp
  qed
qed

lemma edges_km_positive:
  assumes "\<forall>e \<in> set clips. 0 < snd e" and "map_of (edges_grp clips) k = Some x"
  shows "0 < x"
proof -
  from assms(2) have k: "k \<in> fst ` set clips"
    and x: "x = sum_list (map (\<lambda>e. snd e / 1000) (filter (\<lambda>e. fst e = k) clips))"
    by (auto simp: map_of_edges_grp split: if_splits)
  from k have "filter (\<lambda>e. fst e = k) clips \<noteq> []" by (auto simp: filter_empty_conv)
  from sum_list_pos_nonempty [OF this, of "\<lambda>e. snd e / 1000"] assms(1)
  show ?thesis unfolding x by auto
qed

text \<open>
  The output row of a feature with key \<open>k\<close>.  When the spatial join assigns no node to
  \<open>k\<close>, the node count, the mean and the 90th percentile of the betweenness, the mean
  shortest-path length and the node density of the row are all missing.  When the
  overlay has no clipped edge geometry for \<open>k\<close>, the summed edge length and the edge
  density are missing; with clipped lengths that are all positive a summed edge length
  is either missing or positive.  The row of a feature is the same for every other
  choice of the remaining features, nodes and clipped edges.
\<close>

lemma metrics_row_of_block_group:
  assumes "i < length bg" and "bg ! i = (k, a)" and "r = metrics bg joined clips ! i"
  shows "(Some k \<notin> nr_key ` set joined \<longrightarrow>
            nodes_in_bg r = NaN \<and> betweenness_mean r = NaN \<and> betweenness_p90 r = NaN
            \<and> aspl_mean r = NaN \<and> node_density r = NaN)
       \<and> (k \<notin> fst ` set clips \<longrightarrow> edges_km r = NaN \<and> edge_km_density r = NaN)
       \<and> ((\<forall>e \<in> set clips. 0 < snd e) \<longrightarrow>
             (edges_km r = NaN \<longleftrightarrow> k \<notin> fst ` set clips)
             \<and> (\<forall>x. edges_km r = Fin x \<longrightarrow> 0 < x))
       \<and> GEOID_BG r = k
       \<and> area_km2 r = (case a of None \<Rightarrow> NaN | Some x \<Rightarrow> Fin (x / 1000000))
       \<and> (\<forall>bg' joined' clips'.
             i < length bg' \<and> bg' ! i = (k, a)
             \<and> filter (\<lambda>n. nr_key n = Some k) joined' = filter (\<lambda>n. nr_key n = Some k) joined
             \<and> filter (\<lambda>e. fst e = k) clips' = filter (\<lambda>e. fst e = k) clips
             \<longrightarrow> metrics bg' joined' clips' ! i = r)"
proof -
  note r = assms(3)[unfolded metrics_nth[OF assms(1,2)]]
  have nodes: "nodes_in_bg r = NaN \<and> betweenness_mean r = NaN \<and> betweenness_p90 r = NaN
            \<and> aspl_mean r = NaN \<and> node_density r = NaN" if "Some k \<notin> nr_key ` set joined"
    using that by (simp add: r make_row_def map_of_nodes_grp Let_def)
  have edges: "edges_km r = NaN \<and> edge_km_density r = NaN" if "k \<notin> fst ` set clips"
    using that by (simp add: r make_row_def map_of_edges_grp cell_def Let_def fdiv_NaN_right)
  have km: "edges_km r = cell (map_of (edges_grp clips) k)"
    by (simp add: r make_row_def Let_def)
  have positive: "(edges_km r = NaN \<longleftrightarrow> k \<notin> fst ` set clips)
             \<and> (\<forall>x. edges_km r = Fin x \<longrightarrow> 0 < x)"
    if "\<forall>e \<in> set clips. 0 < snd e"
    using edges_km_positive [OF that, of k]
    by (auto simp: km cell_def map_of_edges_grp split: option.splits if_splits)
  have key: "GEOID_BG r = k"
    by (simp add: r make_row_def Let_def)
  have area: "area_km2 r = (case a of None \<Rightarrow> NaN | Some x \<Rightarrow> Fin (x / 1000000))"
    by (simp add: r make_row_def Let_def cell_def split: option.splits)
  have same: "metrics bg' joined' clips' ! i = r"
    if "i < length bg'" "bg' ! i = (k, a)"
       "filter (\<lambda>n. nr_key n = Some k) joined' = filter (\<lambda>n. nr_key n = Some k) joined"
       "filter (\<lambda>e. fst e = k) clips' = filter (\<lambda>e. fst e = k) clips"
    for bg' joined' clips'
  proof -
    have "Some k \<in> nr_key ` set joined' \<longleftrightarrow> Some k \<in> nr_key ` set joined"
      using arg_cong[OF that(3), of set] by (auto simp: image_iff)
    moreover have "k \<in> fst ` set clips' \<longleftrightarrow> k \<in> fst ` set clips"
      using arg_cong[OF that(4), of set] by (auto simp: image_iff)
    ultimately show ?thesis
      by (simp add: metrics_nth[OF that(1,2)] r map_of_nodes_grp map_of_edges_grp that(3,4))
  qed
  from nodes edges positive key area same show ?thesis by blast
qed

lemma computemetrics_run_writes:
  "bg \<noteq> [] \<Longrightarrow> clips \<noteq> [] \<Longrightarrow>
     computemetrics_run bg joined clips = Inr (metrics bg joined clips)"
  by (simp add: computemetrics_run_def)

lemma computemetrics_run_Inr:
  "computemetrics_run bg joined clips = Inr t \<Longrightarrow>
     t = metrics bg joined clips \<and> bg \<noteq> [] \<and> clips \<noteq> []"
  by (auto simp: computemetrics_run_def split: if_splits)

text \<open>
  Claim C9, as the code has it.  Whenever the run writes the output table, the table has
  the keys of the input layer, one row per feature and in the layer's order, whatever
  nodes and edges fall into the polygons.  The area of a row is the area of the
  feature's polygon in square kilometres, and is missing for a feature without
  geometry.  A block group without nodes or without clipped edges keeps its row, with
  the node or edge columns missing.
\<close>

theorem one_row_per_block_group:
  assumes "computemetrics_run bg joined clips = Inr t"
  shows "map GEOID_BG t = map fst bg
       \<and> length t = length bg
       \<and> (\<forall>i < length bg.
             area_km2 (t ! i) = (case snd (bg ! i) of None \<Rightarrow> NaN | Some a \<Rightarrow> Fin (a / 1000000)))
       \<and> (\<forall>i < length bg. Some (fst (bg ! i)) \<notin> nr_key ` set joined \<longrightarrow>
             nodes_in_bg (t ! i) = NaN \<and> betweenness_mean (t ! i) = NaN
             \<and> betweenness_p90 (t ! i) = NaN \<and> aspl_mean (t ! i) = NaN
             \<and> node_density (t ! i) = NaN)
       \<and> (\<forall>i < length bg. fst (bg ! i) \<notin> fst ` set clips \<longrightarrow>
             edges_km (t ! i) = NaN \<and> edge_km_density (t ! i) = NaN)"
proof -
  from computemetrics_run_Inr [OF assms] have t: "t = metrics bg joined clips" by simp
  have keys: "map GEOID_BG t = map fst bg"
    by (auto simp: t metrics_rowwise make_row_def split_def Let_def)
  then have len: "length t = length bg"
    using length_map [of GEOID_BG t] by simp
  have row: "area_km2 (t ! i) = (case snd (bg ! i) of None \<Rightarrow> NaN | Some a \<Rightarrow> Fin (a / 1000000))
       \<and> (Some (fst (bg ! i)) \<notin> nr_key ` set joined \<longrightarrow>
             nodes_in_bg (t ! i) = NaN \<and> betweenness_mean (t ! i) = NaN
             \<and> betweenness_p90 (t ! i) = NaN \<and> aspl_mean (t ! i) = NaN
             \<and> node_density (t ! i) = NaN)
       \<and> (fst (bg ! i) \<notin> fst ` set clips \<longrightarrow>
             edges_km (t ! i) = NaN \<and> edge_km_density (t ! i) = NaN)"
    if "i < length bg" for i
  proof -
    obtain k a where ka: "bg ! i = (k, a)" by (cases "bg ! i")
    from metrics_row_of_block_group [OF that ka refl, of joined clips]
    show ?thesis unfolding t by (simp add: ka)
  qed
  from keys len row show ?thesis by blast
qed

theorem one_row_per_block_group_witness:
  "computemetrics_run example_bg example_joined example_clips
     = Inr (metrics example_bg example_joined example_clips)
   \<and> map GEOID_BG (metrics example_bg example_joined example_clips) =
     [''170317501001'', ''170317501001'', ''170317501002'', ''170317501003'']
   \<and> length (metrics example_bg example_joined example_clips) = 4
   \<and> area_km2 (metrics example_bg example_joined example_clips ! 2) = Fin (500000 / 1000000)
   \<and> nodes_in_bg (metrics example_bg example_joined example_clips ! 2) = NaN
   \<and> edges_km (metrics example_bg example_joined example_clips ! 2) = NaN"
proof -
  have run: "computemetrics_run example_bg example_joined example_clips
     = Inr (metrics example_bg example_joined example_clips)"
    by (simp add: computemetrics_run_def example_bg_def example_clips_def)
  have len: "2 < length example_bg" and row: "snd (example_bg ! 2) = Some 500000"
    and key: "fst (example_bg ! 2) = ''170317501002''"
    and keys: "map fst example_bg =
      [''170317501001'', ''170317501001'', ''170317501002'', ''170317501003'']"
    and n: "length example_bg = 4"
    by (simp_all add: example_bg_def)
  have no_node: "Some (fst (example_bg ! 2)) \<notin> nr_key ` set example_joined"
    and no_edge: "fst (example_bg ! 2) \<notin> fst ` set example_clips"
    unfolding key by (simp_all add: example_joined_def example_clips_def)
  note main = one_row_per_block_group [OF run]
  from main keys have k: "map GEOID_BG (metrics example_bg example_joined example_clips) =
     [''170317501001'', ''170317501001'', ''170317501002'', ''170317501003'']"
    by simp
  from main n have l: "length (metrics example_bg example_joined example_clips) = 4"
    by simp
  from main len have "area_km2 (metrics example_bg example_joined example_clips ! 2)
      = (case snd (example_bg ! 2) of None \<Rightarrow> NaN | Some a \<Rightarrow> Fin (a / 1000000))"
    by blast
  then have a: "area_km2 (metrics example_bg example_joined example_clips ! 2) = Fin (500000 / 1000000)"
    by (simp only: row option.case)
  from main len no_node have c: "nodes_in_bg (metrics example_bg example_joined example_clips ! 2) = NaN"
    by blast
  from main len no_edge have e: "edges_km (metrics example_bg example_joined example_clips ! 2) = NaN"
    by blast
  show ?thesis by (intro conjI run k l a c e)
qed

text \<open>
  The fourth feature of the example layer has no geometry: the run writes the table, and
  the area of the feature's row is missing.
\<close>

theorem missing_geometry_area_counterexample:
  "computemetrics_run example_bg example_joined example_clips
     = Inr (metrics example_bg example_joined example_clips)
   \<and> example_bg ! 3 = (''170317501003'', None)
   \<and> GEOID_BG (metrics example_bg example_joined example_clips ! 3) = ''170317501003''
   \<and> area_km2 (metrics example_bg example_joined example_clips ! 3) = NaN"
  by (simp add: computemetrics_run_def example_eval)

text \<open>
  Claim C4 says that degenerate block groups never cause the run to halt.  When no edge
  of the graph meets any polygon of the layer, every block group is without intersecting
  edge length; the run then stops inside the overlay and writes no table, instead of
  writing rows with missing edge columns.
\<close>

theorem empty_overlay_halts:
  "computemetrics_run example_bg outside_joined [] = Inl OverlayError"
  by (simp add: computemetrics_run_def example_bg_def)

section \<open>Properties of the keys\<close>

lemma length_zfill: "length (zfill w s) = max w (length s)"
  by (auto simp: zfill_def split: list.splits)

lemma length_last12: "length (last12 s) = min 12 (length s)"
  by (simp add: last12_def)

lemma length_normalize_geoid: "length (normalize_geoid s) = 12"
  by (simp add: normalize_geoid_def length_zfill length_last12)

lemma duplicated_none: "filter id (duplicated seen xs) = [] \<longleftrightarrow> distinct xs \<and> set xs \<inter> set seen = {}"
  by (induction xs arbitrary: seen) auto

lemma duplicated_count_pos:
  "0 < length (filter id (duplicated [] xs)) \<longleftrightarrow> \<not> distinct xs"
  using duplicated_none [of "[]" xs] by simp

lemma zfill_no_sign:
  "s = [] \<or> (hd s \<noteq> CHR ''+'' \<and> hd s \<noteq> CHR ''-'') \<Longrightarrow>
     zfill w s = replicate (w - length s) (CHR ''0'') @ s"
  by (auto simp: zfill_def split: list.splits)

lemma normalize_column_12:
  "Some s \<in> set (normalize_column col) \<Longrightarrow> length s = 12"
proof -
  assume "Some s \<in> set (normalize_column col)"
  then obtain x where "Some s = map_option normalize_geoid x"
    by (auto simp: normalize_column_def)
  then obtain y where "s = normalize_geoid y" by (cases x) auto
  then show ?thesis by (simp add: length_normalize_geoid)
qed

lemma not_12_chars_normalized:
  "k \<in> set (normalize_column col) \<Longrightarrow> not_12_chars k \<longleftrightarrow> k = None"
  using normalize_column_12 [of _ col]
  by (cases k) (simp_all add: not_12_chars_def)

lemma merge_left_Nil: "merge_left [] R = []"
  by (simp add: merge_left_def)

lemma merge_left_Cons:
  "merge_left ((k, a) # L) R =
     (case map snd (filter (\<lambda>r. fst r = k) R) of
        [] \<Rightarrow> [(k, a, None)]
      | bs \<Rightarrow> map (\<lambda>b. (k, a, Some b)) bs) @ merge_left L R"
  by (simp add: merge_left_def)

lemma fst_matches: "fst ` set (case bs of [] \<Rightarrow> [(k, a, None)] | b # list \<Rightarrow> map (\<lambda>b. (k, a, Some b)) (b # list)) = {k}"
  by (cases bs) auto

lemma merge_left_fst: "fst ` set (merge_left L R) = fst ` set L"
proof (induction L)
  case Nil
  show ?case by (simp add: merge_left_Nil)
next
  case (Cons x L)
  obtain k a where x: "x = (k, a)" by (cases x)
  show ?case
    by (simp add: x merge_left_Cons image_Un fst_matches Cons.IH)
qed

lemma aggregatetobg_keys:
  "fst ` set (aggregatetobg_join acs mkeys mrows) = set (normalize_column (TextCol (map fst acs)))"
proof -
  have "length (normalize_column (TextCol (map fst acs))) = length (map snd acs)"
    by (simp add: normalize_column_def)
  then have "map fst (zip (normalize_column (TextCol (map fst acs))) (map snd acs))
      = normalize_column (TextCol (map fst acs))"
    by (rule map_fst_zip)
  then have "fst ` set (zip (normalize_column (TextCol (map fst acs))) (map snd acs))
      = set (normalize_column (TextCol (map fst acs)))"
    by (metis set_map)
  then show ?thesis
    by (simp only: aggregatetobg_join_def merge_left_fst)
qed

lemma checkinputs_keys_cases:
  "checkinputs_keys cells =
     (if \<not> distinct (normalize_column (TextCol cells))
      then Inl (DuplicateKeys (length (filter id (duplicated [] (normalize_column (TextCol cells))))))
      else if \<exists>k \<in> set (normalize_column (TextCol cells)). not_12_chars k then Inl KeyLength
      else Inr (normalize_column (TextCol cells)))"
proof (cases "distinct (normalize_column (TextCol cells))")
  case True
  then have "\<not> 0 < length (filter id (duplicated [] (normalize_column (TextCol cells))))"
    by (simp only: duplicated_count_pos not_not)
  with True show ?thesis
    by (simp add: checkinputs_keys_def Let_def list_ex_iff)
next
  case False
  then have "0 < length (filter id (duplicated [] (normalize_column (TextCol cells))))"
    by (simp only: duplicated_count_pos not_False_eq_True)
  with False show ?thesis
    by (simp add: checkinputs_keys_def Let_def)
qed

text \<open>
  Claim C10, as the code has it.  The normalised form of a key always has 12 characters;
  for a key without a leading sign it is the last 12 characters of its string form
  padded on the left with zeros.  A normalised column therefore holds 12-character
  strings and the missing keys of the column it was made from.  aggregatetobg.py joins
  on normalised keys only.  computemetrics.py, and checkinputs.py for the geometry
  layer, derive normalised keys from \<^verbatim>\<open>GEOID\<close> when the layer has no \<^verbatim>\<open>GEOID_BG\<close>
  column, fail when it has neither, and otherwise use the layer's \<^verbatim>\<open>GEOID_BG\<close> column
  unchanged.  checkinputs.py stops exactly when two normalised keys of the ACS table
  coincide or one of them is not 12 characters long; when it goes on, the keys are
  distinct 12-character strings.
\<close>

theorem geoid_normalisation:
  "length (normalize_geoid s) = 12
   \<and> (s = [] \<or> (hd (last12 s) \<noteq> CHR ''+'' \<and> hd (last12 s) \<noteq> CHR ''-'') \<longrightarrow>
        normalize_geoid s = replicate (12 - length s) (CHR ''0'') @ last12 s)
   \<and> (\<forall>k \<in> set (normalize_column col). k = None \<or> (\<exists>t. k = Some t \<and> length t = 12))
   \<and> (None \<in> set (normalize_column col) \<longleftrightarrow> None \<in> set (astype_str col))
   \<and> (\<forall>row \<in> set (aggregatetobg_join acs mkeys mrows).
         fst row = None \<or> (\<exists>t. fst row = Some t \<and> length t = 12))
   \<and> ensure_key None (Some gs) = Inr (TextCol (normalize_column gs))
   \<and> ensure_key None None = Inl LacksKey
   \<and> ensure_key (Some ks) g = Inr ks
   \<and> checkinputs_geometry_key None (Some gs) = Inr (TextCol (normalize_column gs))
   \<and> checkinputs_geometry_key None None = Inl GeometryLacksKey
   \<and> checkinputs_geometry_key (Some ks) g = Inr ks
   \<and> ((\<exists>e. checkinputs_keys cells = Inl e) \<longleftrightarrow>
          \<not> distinct (normalize_column (TextCol cells))
          \<or> (\<exists>k \<in> set (normalize_column (TextCol cells)). not_12_chars k))
   \<and> (\<forall>ks'. checkinputs_keys cells = Inr ks' \<longrightarrow>
          ks' = normalize_column (TextCol cells) \<and> distinct ks'
          \<and> (\<forall>k \<in> set ks'. \<exists>t. k = Some t \<and> length t = 12))"
proof -
  have a: "length (normalize_geoid s) = 12" by (rule length_normalize_geoid)
  have b: "normalize_geoid s = replicate (12 - length s) (CHR ''0'') @ last12 s"
    if "s = [] \<or> (hd (last12 s) \<noteq> CHR ''+'' \<and> hd (last12 s) \<noteq> CHR ''-'')"
  proof -
    from that have "last12 s = [] \<or> (hd (last12 s) \<noteq> CHR ''+'' \<and> hd (last12 s) \<noteq> CHR ''-'')"
      by (auto simp: last12_def)
    from zfill_no_sign [OF this, of 12] show ?thesis
      by (simp add: normalize_geoid_def length_last12)
  qed
  have c: "k = None \<or> (\<exists>t. k = Some t \<and> length t = 12)"
    if "k \<in> set (normalize_column col)" for k col
  proof (cases k)
    case None
    then show ?thesis by simp
  next
    case (Some t)
    with that normalize_column_12 [of t col] show ?thesis by simp
  qed
  have d: "None \<in> set (normalize_column col) \<longleftrightarrow> None \<in> set (astype_str col)"
    by (auto simp: normalize_column_def)
  have e: "fst row = None \<or> (\<exists>t. fst row = Some t \<and> length t = 12)"
    if "row \<in> set (aggregatetobg_join acs mkeys mrows)" for row
  proof -
    from that have "fst row \<in> fst ` set (aggregatetobg_join acs mkeys mrows)" by (rule imageI)
    then have "fst row \<in> set (normalize_column (TextCol (map fst acs)))"
      by (simp only: aggregatetobg_keys)
    then show ?thesis by (rule c)
  qed
  have f: "ensure_key None (Some gs) = Inr (TextCol (normalize_column gs))"
    "ensure_key None None = Inl LacksKey" "ensure_key (Some ks) g = Inr ks"
    "checkinputs_geometry_key None (Some gs) = Inr (TextCol (normalize_column gs))"
    "checkinputs_geometry_key None None = Inl GeometryLacksKey"
    "checkinputs_geometry_key (Some ks) g = Inr ks"
    by (simp_all add: ensure_key_def checkinputs_geometry_key_def)
  have g: "(\<exists>e. checkinputs_keys cells = Inl e) \<longleftrightarrow>
          \<not> distinct (normalize_column (TextCol cells))
          \<or> (\<exists>k \<in> set (normalize_column (TextCol cells)). not_12_chars k)"
    unfolding checkinputs_keys_cases by auto
  have h: "ks' = normalize_column (TextCol cells) \<and> distinct ks'
          \<and> (\<forall>k \<in> set ks'. \<exists>t. k = Some t \<and> length t = 12)"
    if "checkinputs_keys cells = Inr ks'" for ks'
  proof -
    from that have eq: "ks' = normalize_column (TextCol cells)"
      and dist: "distinct (normalize_column (TextCol cells))"
      and ok: "\<And>k. k \<in> set (normalize_column (TextCol cells)) \<Longrightarrow> \<not> not_12_chars k"
      unfolding checkinputs_keys_cases by (auto split: if_splits)
    have "\<exists>t. k = Some t \<and> length t = 12" if "k \<in> set ks'" for k
    proof (cases k)
      case None
      with ok [of k] that eq show ?thesis by (simp add: not_12_chars_def)
    next
      case (Some t)
      with ok [of k] that eq show ?thesis by (simp add: not_12_chars_def)
    qed
    with eq dist show ?thesis by blast
  qed
  have c': "\<forall>k \<in> set (normalize_column col). k = None \<or> (\<exists>t. k = Some t \<and> length t = 12)"
    using c by blast
  have e': "\<forall>row \<in> set (aggregatetobg_join acs mkeys mrows).
         fst row = None \<or> (\<exists>t. fst row = Some t \<and> length t = 12)"
    using e by blast
  have h': "\<forall>ks'. checkinputs_keys cells = Inr ks' \<longrightarrow>
          ks' = normalize_column (TextCol cells) \<and> distinct ks'
          \<and> (\<forall>k \<in> set ks'. \<exists>t. k = Some t \<and> length t = 12)"
    using h by blast
  have b': "s = [] \<or> (hd (last12 s) \<noteq> CHR ''+'' \<and> hd (last12 s) \<noteq> CHR ''-'') \<longrightarrow>
        normalize_geoid s = replicate (12 - length s) (CHR ''0'') @ last12 s"
    using b by blast
  show ?thesis
    by (intro conjI a b' c' d e' f g h')
qed

theorem geoid_normalisation_witness:
  "list_ex not_12_chars (normalize_column (TextCol [Some ''170317501001'', None]))
   \<and> checkinputs_keys [Some ''170317501001'', None] = Inl KeyLength
   \<and> (\<exists>e. checkinputs_keys [Some ''170317501001'', None] = Inl e)
   \<and> checkinputs_keys [Some ''7501001'', Some ''000007501001''] = Inl (DuplicateKeys 1)
   \<and> checkinputs_keys [Some ''7501001'', Some ''170317501002'']
        = Inr [Some ''000007501001'', Some ''170317501002'']
   \<and> distinct [Some ''000007501001'', Some ''170317501002'']
   \<and> normalize_column (FloatCol [Some 170317501001, None]) = [Some ''0317501001.0'', None]
   \<and> normalize_column (IntCol [60371234561]) = [Some ''060371234561'']"
proof -
  have bad: "list_ex not_12_chars (normalize_column (TextCol [Some ''170317501001'', None]))"
    by code_simp
  then have "\<exists>k \<in> set (normalize_column (TextCol [Some ''170317501001'', None])). not_12_chars k"
    by (simp only: list_ex_iff)
  with geoid_normalisation [of "[]" "TextCol []" "[]" "TextCol []" "[]" "TextCol []" "TextCol []" None
      "[Some ''170317501001'', None]"]
  have stops: "\<exists>e. checkinputs_keys [Some ''170317501001'', None] = Inl e"
    by blast
  have c1: "checkinputs_keys [Some ''170317501001'', None] = Inl KeyLength" by code_simp
  have c2: "checkinputs_keys [Some ''7501001'', Some ''000007501001''] = Inl (DuplicateKeys 1)"
    by code_simp
  have c3: "checkinputs_keys [Some ''7501001'', Some ''170317501002'']
        = Inr [Some ''000007501001'', Some ''170317501002'']"
    by code_simp
  with geoid_normalisation [of "[]" "TextCol []" "[]" "TextCol []" "[]" "TextCol []" "TextCol []" None
      "[Some ''7501001'', Some ''170317501002'']"]
  have d: "distinct [Some ''000007501001'', Some ''170317501002'']"
    by blast
  have n1: "normalize_column (FloatCol [Some 170317501001, None]) = [Some ''0317501001.0'', None]"
    by (simp add: normalize_column_def normalize_geoid_def zfill_def last12_def)
  have n2: "normalize_column (IntCol [60371234561]) = [Some ''060371234561'']"
    by (simp add: normalize_column_def normalize_geoid_def zfill_def last12_def)
  show ?thesis by (intro conjI bad c1 stops c2 c3 d n1 n2)
qed

text \<open>
  A layer that brings its own \<^verbatim>\<open>GEOID_BG\<close> column with a 7-character key:
  computemetrics.py joins on that key as it is, and checkinputs.py compares it as it is.
  A missing key stays missing in a normalised column.
\<close>

theorem key_not_normalised_counterexample:
  "ensure_key (Some (TextCol [Some ''7501001''])) (Some (TextCol [Some ''170317501001'']))
     = Inr (TextCol [Some ''7501001''])
   \<and> checkinputs_geometry_key (Some (TextCol [Some ''7501001''])) (Some (TextCol [Some ''170317501001'']))
     = Inr (TextCol [Some ''7501001''])
   \<and> length ''7501001'' \<noteq> 12
   \<and> normalize_geoid ''7501001'' \<noteq> ''7501001''
   \<and> normalize_column (TextCol [Some ''170317501001'', None]) = [Some ''170317501001'', None]"
proof -
  have n: "normalize_geoid ''7501001'' = ''000007501001''" by code_simp
  have m: "normalize_column (TextCol [Some ''170317501001'', None]) = [Some ''170317501001'', None]"
    by code_simp
  have a: "ensure_key (Some (TextCol [Some ''7501001''])) (Some (TextCol [Some ''170317501001'']))
     = Inr (TextCol [Some ''7501001''])"
    by (simp add: ensure_key_def)
  have a': "checkinputs_geometry_key (Some (TextCol [Some ''7501001''])) (Some (TextCol [Some ''170317501001'']))
     = Inr (TextCol [Some ''7501001''])"
    by (simp add: checkinputs_geometry_key_def)
  have b: "length ''7501001'' \<noteq> 12" by simp
  have c: "normalize_geoid ''7501001'' \<noteq> ''7501001''" unfolding n by simp
  show ?thesis by (intro conjI a a' b c m)
qed

section \<open>Properties of the component reduction\<close>

lemma succs_nodes: "set (succs G v) \<subseteq> set (nodes G)"
  by (auto simp: succs_def)

lemma distinct_succs: "distinct (nodes G) \<Longrightarrow> distinct (succs G v)"
  by (simp add: succs_def)

lemma in_succs_iff:
  "w \<in> set (succs G v) \<longleftrightarrow>
     w \<in> set (nodes G) \<and> (\<exists>e \<in> set (edges G). fst e = v \<and> fst (snd e) = w)"
  by (auto simp: succs_def list_ex_iff)

lemma bfs_subset:
  "set q \<subseteq> set seen \<Longrightarrow> set seen \<subseteq> R \<Longrightarrow> (\<And>u. u \<in> R \<Longrightarrow> set (succs G u) \<subseteq> R)
     \<Longrightarrow> set (bfs G seen q) \<subseteq> R"
proof (induction G seen q rule: bfs.induct)
  case (1 G seen)
  then show ?case by simp
next
  case (2 G seen v queue)
  define new where "new = filter (\<lambda>w. w \<notin> set seen) (succs G v)"
  from "2.prems" have "v \<in> R" by auto
  with "2.prems"(3) have "set new \<subseteq> R" by (auto simp: new_def)
  with "2.prems" have "set (bfs G (seen @ new) (queue @ new)) \<subseteq> R"
    by (intro "2.IH" [OF new_def]) auto
  then show ?case by (simp add: new_def Let_def)
qed

lemma bfs_closed:
  "set q \<subseteq> set seen \<Longrightarrow> (\<And>u. u \<in> set seen \<Longrightarrow> u \<notin> set q \<Longrightarrow> set (succs G u) \<subseteq> set seen)
     \<Longrightarrow> set seen \<subseteq> set (bfs G seen q)
         \<and> (\<forall>u \<in> set (bfs G seen q). set (succs G u) \<subseteq> set (bfs G seen q))"
proof (induction G seen q rule: bfs.induct)
  case (1 G seen)
  then show ?case by auto
next
  case (2 G seen v queue)
  define new where "new = filter (\<lambda>w. w \<notin> set seen) (succs G v)"
  have a: "set (queue @ new) \<subseteq> set (seen @ new)"
    using "2.prems"(1) by auto
  have b: "set (succs G u) \<subseteq> set (seen @ new)"
    if "u \<in> set (seen @ new)" "u \<notin> set (queue @ new)" for u
  proof (cases "u = v")
    case True
    then show ?thesis by (auto simp: new_def)
  next
    case False
    with that have "u \<in> set seen" "u \<notin> set (v # queue)" by auto
    from "2.prems"(2) [OF this] show ?thesis by auto
  qed
  from "2.IH" [OF new_def a b]
  show ?case by (simp add: new_def Let_def)
qed

lemma bfs_distinct:
  "distinct seen \<Longrightarrow> distinct (nodes G) \<Longrightarrow> distinct (bfs G seen q)"
proof (induction G seen q rule: bfs.induct)
  case (1 G seen)
  then show ?case by simp
next
  case (2 G seen v queue)
  define new where "new = filter (\<lambda>w. w \<notin> set seen) (succs G v)"
  have "distinct (seen @ new)"
    using "2.prems" by (auto simp: new_def distinct_succs)
  from "2.IH" [OF new_def this "2.prems"(2)]
  show ?case by (simp add: new_def Let_def)
qed

lemma plain_bfs_set: "set (plain_bfs G v) = {w. (v, w) \<in> (arcs G)\<^sup>*}"
proof
  show "set (plain_bfs G v) \<subseteq> {w. (v, w) \<in> (arcs G)\<^sup>*}"
    unfolding plain_bfs_def
  proof (rule bfs_subset)
    fix u assume "u \<in> {w. (v, w) \<in> (arcs G)\<^sup>*}"
    then show "set (succs G u) \<subseteq> {w. (v, w) \<in> (arcs G)\<^sup>*}"
      by (auto simp: arcs_def intro: rtrancl_into_rtrancl)
  qed auto
next
  have cl: "set [v] \<subseteq> set (bfs G [v] [v])
         \<and> (\<forall>u \<in> set (bfs G [v] [v]). set (succs G u) \<subseteq> set (bfs G [v] [v]))"
    by (rule bfs_closed) auto
  have "w \<in> set (bfs G [v] [v])" if "(v, w) \<in> (arcs G)\<^sup>*" for w
    using that
  proof (induction rule: rtrancl_induct)
    case base
    from cl show ?case by simp
  next
    case (step y z)
    with cl show ?case by (auto simp: arcs_def)
  qed
  then show "{w. (v, w) \<in> (arcs G)\<^sup>*} \<subseteq> set (plain_bfs G v)"
    by (auto simp: plain_bfs_def)
qed

lemma plain_bfs_distinct: "distinct (nodes G) \<Longrightarrow> distinct (plain_bfs G v)"
  unfolding plain_bfs_def by (rule bfs_distinct) simp_all

lemma plain_bfs_self: "v \<in> set (plain_bfs G v)"
  by (simp add: plain_bfs_set)

lemma plain_bfs_nodes: "v \<in> set (nodes G) \<Longrightarrow> set (plain_bfs G v) \<subseteq> set (nodes G)"
  unfolding plain_bfs_def
  by (rule bfs_subset) (use succs_nodes in auto)

lemma nodes_to_undirected: "nodes (to_undirected G) = nodes G"
  by (simp add: to_undirected_def)

lemma arcs_undirected_iff:
  "(u, v) \<in> arcs (to_undirected G) \<longleftrightarrow>
     v \<in> set (nodes G) \<and>
     (\<exists>e \<in> set (edges G). (fst e = u \<and> fst (snd e) = v) \<or> (fst e = v \<and> fst (snd e) = u))"
proof -
  have "(\<exists>e \<in> set (edges (to_undirected G)). fst e = u \<and> fst (snd e) = v) \<longleftrightarrow>
        (\<exists>e \<in> set (edges G). (fst e = u \<and> fst (snd e) = v) \<or> (fst e = v \<and> fst (snd e) = u))"
    unfolding to_undirected_def by (simp add: bex_Un) blast
  then show ?thesis
    by (simp add: arcs_def in_succs_iff nodes_to_undirected)
qed

lemma wf_graph_ends:
  "wf_graph G \<Longrightarrow> e \<in> set (edges G) \<Longrightarrow> fst e \<in> set (nodes G) \<and> fst (snd e) \<in> set (nodes G)"
  by (auto simp: wf_graph_def list_all_iff)

lemma sym_arcs_undirected: "wf_graph G \<Longrightarrow> sym (arcs (to_undirected G))"
  by (rule symI) (auto simp: arcs_undirected_iff dest: wf_graph_ends)

lemma linked_sym: "wf_graph G \<Longrightarrow> (u, v) \<in> linked G \<Longrightarrow> (v, u) \<in> linked G"
  unfolding linked_def using sym_rtrancl [OF sym_arcs_undirected] by (auto dest: symD)

lemma linked_trans: "(u, v) \<in> linked G \<Longrightarrow> (v, w) \<in> linked G \<Longrightarrow> (u, w) \<in> linked G"
  unfolding linked_def by (rule rtrancl_trans)

lemma component_of_bfs: "component_of G u = set (plain_bfs (to_undirected G) u)"
  by (simp add: component_of_def linked_def plain_bfs_set)

lemma component_of_nodes: "u \<in> set (nodes G) \<Longrightarrow> component_of G u \<subseteq> set (nodes G)"
  unfolding component_of_bfs using plain_bfs_nodes [of u "to_undirected G"]
  by (simp add: nodes_to_undirected)

lemma component_of_eq:
  assumes "wf_graph G" and "v \<in> component_of G u"
  shows "component_of G v = component_of G u"
proof -
  from assms have uv: "(u, v) \<in> linked G" and vu: "(v, u) \<in> linked G"
    by (auto simp: component_of_def intro: linked_sym)
  show ?thesis
    unfolding component_of_def using uv vu by (auto intro: linked_trans)
qed

lemma is_connected_undirected:
  assumes "wf_graph G" and "nodes G \<noteq> []"
  shows "is_connected (to_undirected G) = Inr (undirected_connected G)"
proof -
  from assms(2) obtain v0 rest where n: "nodes G = v0 # rest" by (cases "nodes G") auto
  let ?B = "plain_bfs (to_undirected G) v0"
  from assms(1) have d: "distinct (nodes G)" by (simp add: wf_graph_def)
  then have dB: "distinct ?B" by (simp add: plain_bfs_distinct nodes_to_undirected)
  have sub: "set ?B \<subseteq> set (nodes G)"
    using plain_bfs_nodes [of v0 "to_undirected G"] n by (simp add: nodes_to_undirected)
  have "length ?B = length (nodes G) \<longleftrightarrow> set ?B = set (nodes G)"
  proof
    assume "length ?B = length (nodes G)"
    with d dB have "card (set ?B) = card (set (nodes G))"
      by (simp add: distinct_card)
    with sub show "set ?B = set (nodes G)" by (intro card_subset_eq) auto
  next
    assume "set ?B = set (nodes G)"
    then have "card (set ?B) = card (set (nodes G))" by simp
    with d dB show "length ?B = length (nodes G)" by (simp add: distinct_card)
  qed
  also have "\<dots> \<longleftrightarrow> undirected_connected G"
  proof
    assume eq: "set ?B = set (nodes G)"
    have "(u, w) \<in> linked G" if "u \<in> set (nodes G)" "w \<in> set (nodes G)" for u w
    proof -
      from that eq have "(v0, u) \<in> linked G" "(v0, w) \<in> linked G"
        by (auto simp: component_of_bfs [symmetric] component_of_def)
      with assms(1) show ?thesis by (blast intro: linked_sym linked_trans)
    qed
    then show "undirected_connected G" by (simp add: undirected_connected_def)
  next
    assume "undirected_connected G"
    then have "set (nodes G) \<subseteq> set ?B"
      using n by (auto simp: undirected_connected_def component_of_bfs [symmetric] component_of_def)
    with sub show "set ?B = set (nodes G)" by auto
  qed
  finally show ?thesis by (simp add: is_connected_def n nodes_to_undirected)
qed

lemma components_from_props:
  "(\<forall>c \<in> set (components_from G seen vs). \<exists>v \<in> set vs. c = plain_bfs G v)
   \<and> (\<forall>v \<in> set vs. v \<in> set seen \<or> (\<exists>c \<in> set (components_from G seen vs). v \<in> set c))"
proof (induction vs arbitrary: seen)
  case Nil
  show ?case by simp
next
  case (Cons x vs)
  show ?case
  proof (cases "x \<in> set seen")
    case True
    with Cons [of seen] show ?thesis by auto
  next
    case False
    with Cons [of "seen @ plain_bfs G x"] plain_bfs_self [of x G]
    show ?thesis by (auto simp: Let_def)
  qed
qed

lemma foldl_longest:
  "foldl (\<lambda>best x. if length best < length x then x else best) b xs \<in> set (b # xs)
   \<and> (\<forall>c \<in> set (b # xs).
         length c \<le> length (foldl (\<lambda>best x. if length best < length x then x else best) b xs))"
proof (induction xs arbitrary: b)
  case Nil
  show ?case by simp
next
  case (Cons x xs)
  from Cons [of "if length b < length x then x else b"]
  show ?case by (auto split: if_splits)
qed

lemma max_by_len_props:
  "cs \<noteq> [] \<Longrightarrow> \<exists>m. max_by_len cs = Inr m \<and> m \<in> set cs \<and> (\<forall>c \<in> set cs. length c \<le> length m)"
  using foldl_longest by (cases cs) (auto simp: max_by_len_def simp del: foldl_Cons)

lemma nodes_subgraph: "set (nodes (subgraph G keep)) = set (nodes G) \<inter> set keep"
  by (auto simp: subgraph_def)

lemma edges_subgraph:
  "set (edges (subgraph G keep)) =
     {e \<in> set (edges G). fst e \<in> set keep \<and> fst (snd e) \<in> set keep}"
  by (auto simp: subgraph_def)

lemma subgraph_linked:
  assumes closed: "\<And>x y. x \<in> set keep \<Longrightarrow> (x, y) \<in> arcs (to_undirected G) \<Longrightarrow> y \<in> set keep"
    and u: "u \<in> set keep"
    and ux: "(u, x) \<in> linked G"
  shows "x \<in> set keep \<and> (u, x) \<in> linked (subgraph G keep)"
  using ux unfolding linked_def
proof (induction rule: rtrancl_induct)
  case base
  from u show ?case by simp
next
  case (step y z)
  then have y: "y \<in> set keep" and uy: "(u, y) \<in> (arcs (to_undirected (subgraph G keep)))\<^sup>*"
    by auto
  from closed [OF y step.hyps(2)] have z: "z \<in> set keep" .
  from step.hyps(2) obtain e where e: "z \<in> set (nodes G)" "e \<in> set (edges G)"
      "(fst e = y \<and> fst (snd e) = z) \<or> (fst e = z \<and> fst (snd e) = y)"
    unfolding arcs_undirected_iff by blast
  with y z have "e \<in> set (edges (subgraph G keep))"
    unfolding edges_subgraph by auto
  with e(1,3) z have "(y, z) \<in> arcs (to_undirected (subgraph G keep))"
    unfolding arcs_undirected_iff nodes_subgraph by blast
  with uy z show ?case by (auto intro: rtrancl_into_rtrancl)
qed

lemma component_closed:
  "x \<in> component_of G u \<Longrightarrow> (x, y) \<in> arcs (to_undirected G) \<Longrightarrow> y \<in> component_of G u"
  by (auto simp: component_of_def linked_def intro: rtrancl_into_rtrancl)

lemma subgraph_component_connected:
  assumes wf: "wf_graph G" and keep: "set keep = component_of G u"
  shows "undirected_connected (subgraph G keep)"
  unfolding undirected_connected_def
proof (intro ballI)
  fix a b
  assume "a \<in> set (nodes (subgraph G keep))" "b \<in> set (nodes (subgraph G keep))"
  then have a: "a \<in> set keep" and b: "b \<in> set keep" by (auto simp: nodes_subgraph)
  with keep have "(u, a) \<in> linked G" "(u, b) \<in> linked G" by (auto simp: component_of_def)
  with wf have ab: "(a, b) \<in> linked G" by (blast intro: linked_sym linked_trans)
  have "\<And>x y. x \<in> set keep \<Longrightarrow> (x, y) \<in> arcs (to_undirected G) \<Longrightarrow> y \<in> set keep"
    unfolding keep by (rule component_closed)
  from subgraph_linked [OF this a ab] show "(a, b) \<in> linked (subgraph G keep)" by simp
qed

lemma subgraph_all: "wf_graph G \<Longrightarrow> subgraph G (nodes G) = G"
  by (auto simp: subgraph_def wf_graph_def list_all_iff intro!: filter_True)

text \<open>
  Claim C3.  For a graph with at least one node the component reduction returns a graph
  that has a node and is connected when its edges are used in both directions.  The
  result is the input restricted to the nodes linked to some node \<open>u\<close>, and no node
  of the input is linked to more nodes than \<open>u\<close> is.  An input that is already
  connected is returned as it is.
\<close>

theorem largest_component_connected:
  assumes wf: "wf_graph G" and ne: "nodes G \<noteq> []"
  shows "\<exists>H u keep. largest_component G = Inr H \<and> nodes H \<noteq> [] \<and> undirected_connected H
          \<and> u \<in> set (nodes G) \<and> set keep = component_of G u \<and> H = subgraph G keep
          \<and> (\<forall>v \<in> set (nodes G). card (component_of G v) \<le> card (component_of G u))
          \<and> (undirected_connected G \<longrightarrow> H = G)"
proof (cases "undirected_connected G")
  case True
  from ne obtain v0 rest where n: "nodes G = v0 # rest" by (cases "nodes G") auto
  have comp: "component_of G v = set (nodes G)" if "v \<in> set (nodes G)" for v
    using True that component_of_nodes [OF that]
    by (auto simp: undirected_connected_def component_of_def)
  have "largest_component G = Inr G"
    by (simp add: largest_component_def is_connected_undirected [OF wf ne] True)
  moreover have "set (nodes G) = component_of G v0" using comp [of v0] n by simp
  moreover have "\<forall>v \<in> set (nodes G). card (component_of G v) \<le> card (component_of G v0)"
    using comp n by simp
  moreover have "v0 \<in> set (nodes G)" using n by simp
  moreover note True ne subgraph_all [OF wf, symmetric]
  ultimately show ?thesis
    by (intro exI [of _ G] exI [of _ v0] exI [of _ "nodes G"]) blast
next
  case False
  let ?UG = "to_undirected G"
  let ?cs = "connected_components ?UG"
  from ne obtain v0 rest where n: "nodes G = v0 # rest" by (cases "nodes G") auto
  have props: "(\<forall>c \<in> set ?cs. \<exists>v \<in> set (nodes G). c = plain_bfs ?UG v)"
    "(\<forall>v \<in> set (nodes G). \<exists>c \<in> set ?cs. v \<in> set c)"
    using components_from_props [of ?UG "[]" "nodes G"]
    by (auto simp: connected_components_def nodes_to_undirected)
  from props(2) n have "?cs \<noteq> []" by auto
  from max_by_len_props [OF this] obtain m where
    m: "max_by_len ?cs = Inr m" "m \<in> set ?cs" "\<forall>c \<in> set ?cs. length c \<le> length m"
    by blast
  from m(2) props(1) obtain u where u: "u \<in> set (nodes G)" "m = plain_bfs ?UG u" by blast
  then have keep: "set m = component_of G u" by (simp add: component_of_bfs)
  from wf have dn: "distinct (nodes ?UG)" by (simp add: wf_graph_def nodes_to_undirected)
  have lc: "largest_component G = Inr (subgraph G m)"
    by (simp add: largest_component_def is_connected_undirected [OF wf ne] False m(1))
  have "u \<in> set (nodes (subgraph G m))"
    using u(1) plain_bfs_self [of u ?UG] by (simp add: nodes_subgraph u(2))
  then have nonempty: "nodes (subgraph G m) \<noteq> []" by auto
  have largest: "card (component_of G v) \<le> card (component_of G u)" if "v \<in> set (nodes G)" for v
  proof -
    from props(2) that obtain c where c: "c \<in> set ?cs" "v \<in> set c" by blast
    with props(1) obtain w where w: "c = plain_bfs ?UG w" by blast
    with c(2) have "v \<in> component_of G w" by (simp add: component_of_bfs)
    from component_of_eq [OF wf this] have "component_of G v = set c"
      by (simp add: w component_of_bfs)
    moreover have "distinct c" "distinct m"
      using dn by (simp_all add: w u(2) plain_bfs_distinct)
    ultimately show ?thesis
      using m(3) c(1) keep [symmetric] by (simp add: distinct_card)
  qed
  show ?thesis
    using lc nonempty subgraph_component_connected [OF wf keep] u(1) keep largest False
    by (intro exI [of _ "subgraph G m"] exI [of _ u] exI [of _ m]) simp
qed

theorem largest_component_connected_witness:
  "wf_graph example_graph \<and> nodes example_graph \<noteq> []
   \<and> largest_component example_graph =
        Inr \<lparr>nodes = [1, 2, 3], edges = [(1, 2, 100), (2, 1, 100), (2, 3, 150), (3, 2, 150)]\<rparr>
   \<and> undirected_connected
        \<lparr>nodes = [1, 2, 3], edges = [(1, 2, 100), (2, 1, 100), (2, 3, 150), (3, 2, 150)]\<rparr>"
proof -
  have wf: "wf_graph example_graph" and ne: "nodes example_graph \<noteq> []"
    by (simp_all add: wf_graph_def example_graph_def)
  have lc: "largest_component example_graph =
     Inr \<lparr>nodes = [1, 2, 3], edges = [(1, 2, 100), (2, 1, 100), (2, 3, 150), (3, 2, 150)]\<rparr>"
    by (simp add: largest_component_def to_undirected_def is_connected_def plain_bfs_def
        succs_def connected_components_def max_by_len_def subgraph_def example_graph_def)
  from largest_component_connected [OF wf ne] obtain H where
    "largest_component example_graph = Inr H" "undirected_connected H" by blast
  with lc have "undirected_connected
        \<lparr>nodes = [1, 2, 3], edges = [(1, 2, 100), (2, 1, 100), (2, 3, 150), (3, 2, 150)]\<rparr>"
    by simp
  with wf ne lc show ?thesis by blast
qed

section \<open>Properties of the node metrics\<close>

text \<open>
  The enumeration of paths is sound and complete: it lists exactly the paths without a
  repeated node, so every node that can be reached has a path, its distance is the
  length of one of its paths and is no longer than any of them, and the distance from a
  node to itself is 0.
\<close>

lemma extend_sound:
  "p \<in> set (extend_path G n visited v) \<Longrightarrow>
     p \<noteq> [] \<and> hd p = v \<and> successively (\<lambda>a b. b \<in> set (succs G a)) p
     \<and> (v \<notin> set visited \<longrightarrow> distinct p \<and> set p \<inter> set visited = {})"
proof (induction n arbitrary: p visited v)
  case 0
  then show ?case by simp
next
  case (Suc n)
  show ?case
  proof (cases "p = [v]")
    case True
    then show ?thesis by simp
  next
    case False
    with Suc.prems obtain w q where w: "w \<in> set (succs G v)" "w \<notin> set (v # visited)"
      and q: "q \<in> set (extend_path G n (v # visited) w)" and p: "p = v # q"
      by auto
    from Suc.IH [OF q] w(2)
    have "q \<noteq> []" "hd q = w" "successively (\<lambda>a b. b \<in> set (succs G a)) q"
      "distinct q" "set q \<inter> set (v # visited) = {}"
      by auto
    with w(1) p show ?thesis
      by (cases q) (auto simp: successively_Cons)
  qed
qed

lemma extend_complete:
  "successively (\<lambda>a b. b \<in> set (succs G a)) (v # q) \<Longrightarrow> distinct (v # q)
     \<Longrightarrow> set (v # q) \<inter> set visited = {} \<Longrightarrow> length q \<le> n
     \<Longrightarrow> v # q \<in> set (extend_path G n visited v)"
proof (induction n arbitrary: v q visited)
  case 0
  then show ?case by simp
next
  case (Suc n)
  show ?case
  proof (cases q)
    case Nil
    then show ?thesis by simp
  next
    case (Cons w r)
    with Suc.prems have w: "w \<in> set (succs G v)" "w \<notin> set (v # visited)"
      by (auto simp: successively_Cons)
    from Suc.prems Cons have "w # r \<in> set (extend_path G n (v # visited) w)"
      by (intro Suc.IH) (auto simp: successively_Cons)
    with w Cons show ?thesis by auto
  qed
qed

lemma path_nodes:
  "successively (\<lambda>a b. b \<in> set (succs G a)) (v # q) \<Longrightarrow> set q \<subseteq> set (nodes G)"
proof (induction q arbitrary: v)
  case Nil
  show ?case by simp
next
  case (Cons w r)
  then show ?case by (auto simp: successively_Cons succs_def)
qed

lemma reach_simple_path:
  "(s, t) \<in> (arcs G)\<^sup>* \<Longrightarrow>
     \<exists>q. last (s # q) = t \<and> successively (\<lambda>a b. b \<in> set (succs G a)) (s # q) \<and> distinct (s # q)"
proof (induction rule: converse_rtrancl_induct)
  case base
  show ?case by (intro exI [of _ "[]"]) simp
next
  case (step s y)
  then obtain q where q: "last (y # q) = t" "successively (\<lambda>a b. b \<in> set (succs G a)) (y # q)"
    "distinct (y # q)" by blast
  show ?case
  proof (cases "s \<in> set (y # q)")
    case False
    with q step.hyps(1) show ?thesis
      by (intro exI [of _ "y # q"]) (auto simp: successively_Cons arcs_def)
  next
    case True
    then obtain xs zs where split: "y # q = xs @ s # zs" by (meson split_list)
    with q have "last (s # zs) = t" "successively (\<lambda>a b. b \<in> set (succs G a)) (s # zs)"
      "distinct (s # zs)"
      by (auto simp: successively_append_iff)
    then show ?thesis by blast
  qed
qed

lemma reachable_has_path:
  assumes "wf_graph G" and "s \<in> set (nodes G)" and "(s, t) \<in> (arcs G)\<^sup>*"
  shows "paths_between G s t \<noteq> []"
proof -
  from reach_simple_path [OF assms(3)] obtain q where
    q: "last (s # q) = t" "successively (\<lambda>a b. b \<in> set (succs G a)) (s # q)" "distinct (s # q)"
    by blast
  from path_nodes [OF q(2)] assms(2) have "set (s # q) \<subseteq> set (nodes G)" by simp
  with q(3) have "card (set (s # q)) \<le> card (set (nodes G))"
    by (intro card_mono) auto
  with q(3) assms(1) have "length (s # q) \<le> length (nodes G)"
    by (simp add: distinct_card wf_graph_def del: set_simps distinct.simps)
  then have "length q \<le> length (nodes G)" by simp
  from extend_complete [OF q(2,3) _ this, of "[]"]
  have "s # q \<in> set (simple_paths G s)" by (simp add: simple_paths_def)
  with q(1) have "s # q \<in> set (paths_between G s t)" by (simp add: paths_between_def)
  then show ?thesis by auto
qed

lemma min_list_in: "xs \<noteq> [] \<Longrightarrow> min_list xs \<in> set (xs :: real list)"
proof (induction xs)
  case Nil
  then show ?case by simp
next
  case (Cons x xs)
  then show ?case by (cases xs) (auto simp: min_def)
qed

lemma min_list_le: "x \<in> set xs \<Longrightarrow> min_list xs \<le> (x :: real)"
proof (induction xs)
  case Nil
  then show ?case by simp
next
  case (Cons y xs)
  then show ?case by (cases xs) (auto simp: min_def)
qed

lemma distance_least:
  assumes "wf_graph G" and "s \<in> set (nodes G)" and "(s, t) \<in> (arcs G)\<^sup>*"
  shows "(\<exists>p \<in> set (paths_between G s t). distance G s t = path_length G p)
       \<and> (\<forall>p \<in> set (paths_between G s t). distance G s t \<le> path_length G p)"
proof -
  from reachable_has_path [OF assms] have "map (path_length G) (paths_between G s t) \<noteq> []"
    by simp
  from min_list_in [OF this] min_list_le [of _ "map (path_length G) (paths_between G s t)"]
  show ?thesis unfolding distance_def by auto
qed

lemma distance_self: "distance G s s = 0"
proof -
  have "p = [s]" if "p \<in> set (paths_between G s s)" for p
  proof -
    from that have "p \<in> set (extend_path G (length (nodes G)) [] s)" "last p = s"
      by (auto simp: paths_between_def simple_paths_def)
    with extend_sound [of p G "length (nodes G)" "[]" s]
    have "p \<noteq> []" "hd p = s" "distinct p" "last p = s" by auto
    then obtain ys where ys: "p = ys @ [s]" by (cases p rule: rev_cases) auto
    have "ys = []"
    proof (rule ccontr)
      assume "ys \<noteq> []"
      with \<open>hd p = s\<close> ys have "s \<in> set ys" by (cases ys) auto
      with \<open>distinct p\<close> ys show False by simp
    qed
    with ys show ?thesis by simp
  qed
  moreover have "[s] \<in> set (paths_between G s s)"
    by (cases "length (nodes G)") (auto simp: paths_between_def simple_paths_def)
  ultimately have "set (paths_between G s s) = {[s]}" by blast
  then have "path_length G ` set (paths_between G s s) = {0}" by simp
  then have img: "set (map (path_length G) (paths_between G s s)) = {0}"
    by (simp only: set_map)
  then have "map (path_length G) (paths_between G s s) \<noteq> []"
    by (metis empty_iff empty_set insertI1)
  from min_list_in [OF this]
  have "min_list (map (path_length G) (paths_between G s s)) \<in> {0}"
    by (simp only: img)
  then show ?thesis
    by (simp only: distance_def singletonD)
qed

lemma pair_dependency_bounds: "0 \<le> pair_dependency G s t v \<and> pair_dependency G s t v \<le> 1"
proof -
  have "length (filter (\<lambda>p. v \<in> set p) sp) \<le> length sp" for sp :: "node list list"
    by simp
  then show ?thesis
    by (auto simp: pair_dependency_def Let_def divide_le_eq_1)
qed

lemma sum_list_bounds:
  "(\<And>x. x \<in> set xs \<Longrightarrow> 0 \<le> f x \<and> f x \<le> c) \<Longrightarrow>
     0 \<le> sum_list (map f xs) \<and> sum_list (map f xs) \<le> real (length xs) * (c :: real)"
proof (induction xs)
  case Nil
  show ?case by simp
next
  case (Cons x xs)
  from Cons.prems have "0 \<le> f x \<and> f x \<le> c" by simp
  moreover from Cons have "0 \<le> sum_list (map f xs) \<and> sum_list (map f xs) \<le> real (length xs) * c"
    by simp
  ultimately show ?case by (simp add: algebra_simps)
qed

lemma length_filter_neq:
  "distinct xs \<Longrightarrow> v \<in> set xs \<Longrightarrow> length (filter (\<lambda>s. s \<noteq> v) xs) = length xs - 1"
proof (induction xs)
  case Nil
  then show ?case by simp
next
  case (Cons x xs)
  show ?case
  proof (cases "x = v")
    case True
    with Cons.prems have "filter (\<lambda>s. s \<noteq> v) xs = xs" by (auto intro: filter_True)
    with True show ?thesis by simp
  next
    case False
    with Cons have "length (filter (\<lambda>s. s \<noteq> v) xs) = length xs - 1" "xs \<noteq> []" by auto
    with False show ?thesis by (cases xs) auto
  qed
qed

lemma length_filter_neq2:
  assumes "distinct xs" "v \<in> set xs" "s \<in> set xs" "s \<noteq> v"
  shows "length (filter (\<lambda>t. t \<noteq> s \<and> t \<noteq> v) xs) = length xs - 2"
proof -
  have "filter (\<lambda>t. t \<noteq> s \<and> t \<noteq> v) xs = filter (\<lambda>t. t \<noteq> s) (filter (\<lambda>t. t \<noteq> v) xs)"
    by (simp add: conj_commute)
  moreover have "length (filter (\<lambda>t. t \<noteq> s) (filter (\<lambda>t. t \<noteq> v) xs))
      = length (filter (\<lambda>t. t \<noteq> v) xs) - 1"
    using assms by (intro length_filter_neq) auto
  ultimately show ?thesis using length_filter_neq [OF assms(1,2)] by simp
qed

lemma raw_bounds:
  assumes d: "distinct (nodes G)" and v: "v \<in> set (nodes G)"
  shows "0 \<le> raw_betweenness G v
       \<and> raw_betweenness G v \<le> real ((length (nodes G) - 1) * (length (nodes G) - 2))"
proof -
  let ?n = "length (nodes G)"
  have inner: "0 \<le> sum_list (map (\<lambda>t. pair_dependency G s t v)
                                   (filter (\<lambda>t. t \<noteq> s \<and> t \<noteq> v) (nodes G)))
        \<and> sum_list (map (\<lambda>t. pair_dependency G s t v)
                                   (filter (\<lambda>t. t \<noteq> s \<and> t \<noteq> v) (nodes G))) \<le> real (?n - 2)"
    if "s \<in> set (filter (\<lambda>s. s \<noteq> v) (nodes G))" for s
  proof -
    from that have s: "s \<in> set (nodes G)" "s \<noteq> v" by auto
    from sum_list_bounds [of "filter (\<lambda>t. t \<noteq> s \<and> t \<noteq> v) (nodes G)"
          "\<lambda>t. pair_dependency G s t v" 1]
      pair_dependency_bounds
    show ?thesis by (simp add: length_filter_neq2 [OF d v s])
  qed
  from sum_list_bounds [of "filter (\<lambda>s. s \<noteq> v) (nodes G)" _ "real (?n - 2)", OF inner]
  show ?thesis
    by (simp add: raw_betweenness_def length_filter_neq [OF d v])
qed

lemma betweenness_centrality_alt:
  "betweenness_centrality G =
     map (\<lambda>v. (v, if length (nodes G) \<le> 2 then raw_betweenness G v
                   else raw_betweenness G v / real ((length (nodes G) - 1) * (length (nodes G) - 2))))
         (nodes G)"
  by (simp add: betweenness_centrality_def Let_def)

text \<open>
  Claim C7.  The betweenness centrality has a value for every node of the graph, every
  value lies between 0 and 1, and in a graph with a single node the value of that node
  is 0.
\<close>

theorem betweenness_unit_interval:
  assumes "wf_graph G"
  shows "map fst (betweenness_centrality G) = nodes G
       \<and> (\<forall>vb \<in> set (betweenness_centrality G). 0 \<le> snd vb \<and> snd vb \<le> 1)
       \<and> (\<forall>v. nodes G = [v] \<longrightarrow> betweenness_centrality G = [(v, 0)])"
proof -
  have keys: "map fst (betweenness_centrality G) = nodes G"
    by (simp add: betweenness_centrality_alt comp_def)
  have unit: "0 \<le> snd vb \<and> snd vb \<le> 1" if "vb \<in> set (betweenness_centrality G)" for vb
  proof -
    from that obtain v where v: "v \<in> set (nodes G)"
      and vb: "snd vb = (if length (nodes G) \<le> 2 then raw_betweenness G v
                   else raw_betweenness G v / real ((length (nodes G) - 1) * (length (nodes G) - 2)))"
      by (auto simp: betweenness_centrality_alt)
    from assms have d: "distinct (nodes G)" by (simp add: wf_graph_def)
    note rb = raw_bounds [OF d v]
    show ?thesis
    proof (cases "length (nodes G) \<le> 2")
      case True
      then have "(length (nodes G) - 1) * (length (nodes G) - 2) = 0" by simp
      with rb True vb show ?thesis by simp
    next
      case False
      then have "0 < real ((length (nodes G) - 1) * (length (nodes G) - 2))" by simp
      with rb False vb show ?thesis by (simp add: divide_le_eq_1)
    qed
  qed
  have single: "betweenness_centrality G = [(v, 0)]" if "nodes G = [v]" for v
    using that by (simp add: betweenness_centrality_def raw_betweenness_def)
  from keys unit single show ?thesis by blast
qed

lemma dijkstra_others:
  "map snd (filter (\<lambda>(v, d). v \<noteq> u) (single_source_dijkstra_path_length G u))
     = map (distance G u) (filter (\<lambda>v. v \<noteq> u) (plain_bfs G u))"
  by (simp add: single_source_dijkstra_path_length_def filter_map comp_def)

lemma others_set:
  "set (filter (\<lambda>v. v \<noteq> u) (plain_bfs G u)) = {v. v \<noteq> u \<and> (u, v) \<in> (arcs G)\<^sup>*}"
  by (auto simp: plain_bfs_set)

text \<open>
  Claim C2.  Let \<open>R\<close> be the nodes other than \<open>u\<close> that can be reached from \<open>u\<close>
  along the edges.  The dictionary of distances from \<open>u\<close> has exactly the keys
  \<open>R\<close> and \<open>u\<close>.  When \<open>R\<close> is not empty, the mean shortest-path length computed
  for \<open>u\<close> is the sum of the distances to the nodes of \<open>R\<close> divided by the number of
  nodes in \<open>R\<close>; when \<open>R\<close> is empty it is not-a-number.
\<close>

theorem mean_shortest_path_length:
  assumes "wf_graph G" and "u \<in> set (nodes G)"
  shows "(let R = {v. v \<noteq> u \<and> (u, v) \<in> (arcs G)\<^sup>*}
          in map_of (all_pairs_mean_shortest_path_length G) u =
               Some (if R = {} then None
                     else Some ((\<Sum>v \<in> R. distance G u v) / real (card R))))
       \<and> (\<forall>v. map_of (single_source_dijkstra_path_length G u) v =
               (if (u, v) \<in> (arcs G)\<^sup>* then Some (distance G u v) else None))"
proof -
  let ?B = "plain_bfs G u"
  let ?O = "filter (\<lambda>v. v \<noteq> u) ?B"
  let ?R = "{v. v \<noteq> u \<and> (u, v) \<in> (arcs G)\<^sup>*}"
  from assms(1) have dB: "distinct ?B" by (simp add: wf_graph_def plain_bfs_distinct)
  then have dO: "distinct ?O" by simp
  have len: "length ?O = length ?B - 1"
    using dB plain_bfs_self by (rule length_filter_neq)
  have card: "card ?R = length ?O"
    by (simp only: others_set [symmetric] distinct_card [OF dO])
  have sum: "sum_list (map (distance G u) ?O) = (\<Sum>v \<in> ?R. distance G u v)"
    by (simp only: others_set [symmetric] sum_list_distinct_conv_sum_set [OF dO])
  have empty: "?R = {} \<longleftrightarrow> \<not> 1 < length ?B"
  proof -
    have "?R = {} \<longleftrightarrow> ?O = []" using others_set [of u G] by (metis set_empty)
    also have "\<dots> \<longleftrightarrow> length ?O = 0" by simp
    also have "\<dots> \<longleftrightarrow> \<not> 1 < length ?B" using len by auto
    finally show ?thesis .
  qed
  have "map_of (all_pairs_mean_shortest_path_length G) u =
          Some (if 1 < length ?B
                then Some (sum_list (map (distance G u) ?O) / real (length ?B - 1)) else None)"
    using assms(2)
    by (simp add: all_pairs_mean_shortest_path_length_def map_of_map_restrict Let_def
          dijkstra_others) (simp add: single_source_dijkstra_path_length_def)
  note ap = this
  have a: "map_of (all_pairs_mean_shortest_path_length G) u =
               Some (if ?R = {} then None
                     else Some ((\<Sum>v \<in> ?R. distance G u v) / real (card ?R)))"
  proof (cases "1 < length ?B")
    case True
    with empty have "?R \<noteq> {}" by blast
    then have "(if ?R = {} then None
                     else Some ((\<Sum>v \<in> ?R. distance G u v) / real (card ?R)))
        = Some (sum_list (map (distance G u) ?O) / real (length ?B - 1))"
      by (simp only: if_False sum card len)
    with ap True show ?thesis by (simp only: if_True)
  next
    case False
    with empty have "?R = {}" by blast
    then have "(if ?R = {} then None
                     else Some ((\<Sum>v \<in> ?R. distance G u v) / real (card ?R))) = None"
      by simp
    with ap False show ?thesis by (simp only: if_False)
  qed
  have b: "map_of (single_source_dijkstra_path_length G u) v =
               (if (u, v) \<in> (arcs G)\<^sup>* then Some (distance G u v) else None)" for v
    by (simp add: single_source_dijkstra_path_length_def map_of_map_restrict plain_bfs_set)
  from a b show ?thesis by (simp add: Let_def)
qed

theorem mean_shortest_path_length_witness:
  "wf_graph abc_graph \<and> 1 \<in> set (nodes abc_graph)
   \<and> map_of (all_pairs_mean_shortest_path_length abc_graph) 1 = Some (Some 175)
   \<and> (if {v. v \<noteq> 1 \<and> (1, v) \<in> (arcs abc_graph)\<^sup>*} = {} then None
        else Some ((\<Sum>v \<in> {v. v \<noteq> 1 \<and> (1, v) \<in> (arcs abc_graph)\<^sup>*}. distance abc_graph 1 v)
                    / real (card {v. v \<noteq> 1 \<and> (1, v) \<in> (arcs abc_graph)\<^sup>*}))) = Some 175"
proof -
  have wf: "wf_graph abc_graph" and u: "1 \<in> set (nodes abc_graph)"
    by (simp_all add: wf_graph_def abc_graph_def)
  have ev: "all_pairs_mean_shortest_path_length abc_graph = [(1, Some 175), (2, Some 125), (3, Some 200)]"
    by code_simp
  then have at: "map_of (all_pairs_mean_shortest_path_length abc_graph) 1 = Some (Some 175)"
    by simp
  from mean_shortest_path_length [OF wf u] have
    "map_of (all_pairs_mean_shortest_path_length abc_graph) 1 =
       Some (if {v. v \<noteq> 1 \<and> (1, v) \<in> (arcs abc_graph)\<^sup>*} = {} then None
        else Some ((\<Sum>v \<in> {v. v \<noteq> 1 \<and> (1, v) \<in> (arcs abc_graph)\<^sup>*}. distance abc_graph 1 v)
                    / real (card {v. v \<noteq> 1 \<and> (1, v) \<in> (arcs abc_graph)\<^sup>*})))"
    by (simp only: Let_def)
  with at have "(if {v. v \<noteq> 1 \<and> (1, v) \<in> (arcs abc_graph)\<^sup>*} = {} then None
        else Some ((\<Sum>v \<in> {v. v \<noteq> 1 \<and> (1, v) \<in> (arcs abc_graph)\<^sup>*}. distance abc_graph 1 v)
                    / real (card {v. v \<noteq> 1 \<and> (1, v) \<in> (arcs abc_graph)\<^sup>*}))) = Some 175"
    by (simp only: option.inject)
  with wf u at show ?thesis by (intro conjI)
qed

text \<open>
  Claim C6.  In the graph of the scenario the betweenness of B is 1 and exceeds the
  betweenness 0 of A and of C; the mean shortest-path length of A is 175 and that of B
  is 125.
\<close>

theorem abc_scenario:
  "betweenness_centrality abc_graph = [(1, 0), (2, 1), (3, 0)]
   \<and> the (map_of (betweenness_centrality abc_graph) 1) < the (map_of (betweenness_centrality abc_graph) 2)
   \<and> the (map_of (betweenness_centrality abc_graph) 3) < the (map_of (betweenness_centrality abc_graph) 2)
   \<and> map_of (all_pairs_mean_shortest_path_length abc_graph) 1 = Some (Some 175)
   \<and> map_of (all_pairs_mean_shortest_path_length abc_graph) 2 = Some (Some 125)"
proof -
  have b: "betweenness_centrality abc_graph = [(1, 0), (2, 1), (3, 0)]" by code_simp
  have a: "all_pairs_mean_shortest_path_length abc_graph
      = [(1, Some 175), (2, Some 125), (3, Some 200)]" by code_simp
  show ?thesis unfolding a b by simp
qed

theorem betweenness_unit_interval_witness:
  "wf_graph single_node_graph \<and> nodes single_node_graph = [7]
   \<and> betweenness_centrality single_node_graph = [(7, 0)]
   \<and> wf_graph abc_graph
   \<and> 0 \<le> snd (hd (tl (betweenness_centrality abc_graph)))
   \<and> snd (hd (tl (betweenness_centrality abc_graph))) \<le> 1"
proof -
  have wf1: "wf_graph single_node_graph" and n1: "nodes single_node_graph = [7]"
    by (simp_all add: wf_graph_def single_node_graph_def)
  have wf3: "wf_graph abc_graph"
    by (simp add: wf_graph_def abc_graph_def)
  from betweenness_unit_interval [OF wf1] n1
  have single: "betweenness_centrality single_node_graph = [(7, 0)]" by blast
  from betweenness_unit_interval [OF wf3]
  have keys: "map fst (betweenness_centrality abc_graph) = nodes abc_graph"
    and unit: "\<And>vb. vb \<in> set (betweenness_centrality abc_graph) \<Longrightarrow> 0 \<le> snd vb \<and> snd vb \<le> 1"
    by blast+
  from keys have "length (betweenness_centrality abc_graph) = 3"
    using length_map [of fst "betweenness_centrality abc_graph"] by (simp add: abc_graph_def)
  then have "hd (tl (betweenness_centrality abc_graph)) \<in> set (betweenness_centrality abc_graph)"
    by (cases "betweenness_centrality abc_graph"; cases "tl (betweenness_centrality abc_graph)") auto
  from unit [OF this] wf1 n1 single wf3 show ?thesis by blast
qed

end
